theory Spec2Isabelle
  imports Complex_Main
begin

section \<open>The sequential task pool of \<^verbatim>\<open>packages/core/src/utils/task-pool.ts\<close>\<close>

text \<open>
  The class \<^verbatim>\<open>TaskPool\<close> keeps a queue of pending runs, the run being executed, a
  bounded history of finished runs and a counter for run identifiers. Its methods are
  embedded as functions on a record of the pool's fields. Three things of the host
  language are made explicit:

  \<^item> Objects are shared by reference. The run records live in a store (\<open>objects\<close>, a list
    indexed by address); the queue, the history and the current-run slot hold addresses.
    A method that returns \<^verbatim>\<open>{ ...run }\<close> returns a record value (a fresh copy), a method
    that returns the stored object itself returns its address.
  \<^item> \<^verbatim>\<open>processNextTask\<close> is an \<^verbatim>\<open>async\<close> function with one \<^verbatim>\<open>await\<close>. It is split
    at the \<^verbatim>\<open>await\<close>: \<open>processNextTask\<close> runs up to the call of the work function,
    \<open>processNextTask_resume\<close> and \<open>processNextTask_catch_throws\<close> are the two ways the
    continuation can go when the promise of the work function settles. Whether and when
    it settles, and with what, is decided by the environment and arrives as an event (a
    work function that throws before it returns a promise is the case where this event
    follows at once). The polling loop of \<^verbatim>\<open>cleanup\<close> is split in the same way, one event
    per wake-up.
  \<^item> Clock readings (\<^verbatim>\<open>Date.now()\<close>, \<^verbatim>\<open>new Date()\<close>) are arguments, in milliseconds.
    Numbers are taken as integers (the counter and the clock stay far below \<open>2^53\<close>,
    where the host's numbers are exact).
\<close>

subsection \<open>Values of the host language\<close>

text \<open>An \<^verbatim>\<open>Error\<close> object, with its message.\<close>

datatype js_error = Error string

text \<open>
  What a work function throws or rejects with, as the \<^verbatim>\<open>catch\<close> block of
  \<^verbatim>\<open>processNextTask\<close> looks at it. The block evaluates
  \<^verbatim>\<open>error instanceof Error ? error : new Error(String(error))\<close>. A value on which
  this expression returns is a \<open>js_value\<close>: an error object, a string, or any other
  value that is not an error object, given by the string that \<^verbatim>\<open>String\<close> returns for it
  (\<^verbatim>\<open>undefined\<close>, \<^verbatim>\<open>null\<close>, \<^verbatim>\<open>42\<close>, \<^verbatim>\<open>1e+21\<close>, \<^verbatim>\<open>[object Object]\<close> and so on). On
  some values the expression throws instead: \<^verbatim>\<open>String\<close> throws on an object without a
  usable \<^verbatim>\<open>toString\<close> such as \<^verbatim>\<open>Object.create(null)\<close> and on one whose \<^verbatim>\<open>toString\<close>
  throws, and \<^verbatim>\<open>instanceof\<close> throws on a revoked proxy. Such a value is not a
  \<open>js_value\<close>; a rejection with it is the event \<open>TaskRejectsUnconvertible\<close> below.
\<close>

datatype js_value =
    JSErrorObject js_error
  | JSString string
  | JSOther string

definition digit_char :: "nat \<Rightarrow> char" where
  "digit_char d = char_of (48 + d)"

text \<open>Decimal digits of a natural number, as the host prints an integer.\<close>

fun show_nat :: "nat \<Rightarrow> string" where
  "show_nat n = (if n < 10 then [digit_char n] else show_nat (n div 10) @ [digit_char (n mod 10)])"

declare show_nat.simps [simp del]

definition show_int :: "int \<Rightarrow> string" where
  "show_int i = (if i < 0 then CHR ''-'' # show_nat (nat (- i)) else show_nat (nat i))"

text \<open>
  \<^verbatim>\<open>error instanceof Error ? error : new Error(String(error))\<close> on the values above:
  an error object is kept, any other value is wrapped in a new error whose message is the
  string that \<^verbatim>\<open>String\<close> returns for it.
\<close>

fun normalize_error :: "js_value \<Rightarrow> js_error" where
  "normalize_error (JSErrorObject e) = e"
| "normalize_error (JSString s) = Error s"
| "normalize_error (JSOther s) = Error s"

text \<open>\<^verbatim>\<open>Math.round\<close>: the nearest integer, a tie going up.\<close>

definition Math_round :: "rat \<Rightarrow> int" where
  "Math_round x = \<lfloor>x + 1 / 2\<rfloor>"

subsection \<open>Data model\<close>

datatype TaskRunStatus = PENDING | RUNNING | COMPLETED | FAILED

text \<open>
  An optional field that was never assigned is \<open>None\<close>; a field that was assigned holds
  \<open>Some\<close> value, whatever the result type is.
\<close>

record ('p, 'r) TaskRun =
  id' :: string
  params :: 'p
  status :: TaskRunStatus
  result :: "'r option"
  error :: "js_error option"
  startedAt :: "int option"
  completedAt :: "int option"
  duration :: "int option"
  queueTime :: "int option"
  queuedAt :: int

record PoolStats =
  totalRuns :: nat
  completedRuns :: nat
  failedRuns :: nat
  currentQueueSize :: nat
  isRunning :: bool
  averageDurationMs :: int

type_synonym addr = nat

type_synonym callback = nat

text \<open>
  The fields of the class, then the store of run objects and the two counters of the
  event loop that the class relies on: the number of \<^verbatim>\<open>setImmediate\<close> callbacks scheduled
  and not yet run, and the number of \<^verbatim>\<open>cleanup\<close> calls asleep in the polling loop.
\<close>

record ('p, 'r) TaskPool =
  maxHistorySize :: int
  queue :: "addr list"
  history :: "addr list"
  currentRun :: "addr option"
  isProcessing :: bool
  isShuttingDown :: bool
  runCounter :: nat
  onProcessed :: "callback option"
  objects :: "('p, 'r) TaskRun list"
  immediates :: nat
  sleepers :: nat

text \<open>
  How the promise of the work function settles, when the \<^verbatim>\<open>try\<close> statement of
  \<^verbatim>\<open>processNextTask\<close> runs to its end: fulfilled with a result, or rejected with a value
  that the \<^verbatim>\<open>catch\<close> block normalises.
\<close>

datatype 'r outcome = Fulfilled 'r | Rejected js_value

text \<open>
  What a step hands back to the code outside the pool. \<open>Called cb a\<close>: the callback
  \<open>cb\<close> was called with the stored run at address \<open>a\<close>. \<open>Unhandled\<close>: the \<^verbatim>\<open>catch\<close>
  block of \<^verbatim>\<open>processNextTask\<close> threw and the exception ended the call; the promise of
  that call is rejected, and neither \<^verbatim>\<open>enqueue\<close> nor the \<^verbatim>\<open>setImmediate\<close> callback
  holds on to it. What the host does with such a promise is not part of the pool; the
  states computed here are those of a process that goes on.
\<close>

datatype reply =
    RunId string
  | Threw string
  | Called callback addr
  | Resolved
  | Waiting
  | Done
  | NotEnabled
  | Unhandled

subsection \<open>Constructor and accessors\<close>

definition new_TaskPool :: "int option \<Rightarrow> ('p, 'r) TaskPool" where
  "new_TaskPool options =
     \<lparr> maxHistorySize = (case options of None \<Rightarrow> 100 | Some m \<Rightarrow> m),
       queue = [], history = [], currentRun = None,
       isProcessing = False, isShuttingDown = False, runCounter = 0,
       onProcessed = None, objects = [], immediates = 0, sleepers = 0 \<rparr>"

definition deref :: "('p, 'r) TaskPool \<Rightarrow> addr \<Rightarrow> ('p, 'r) TaskRun" where
  "deref p a = objects p ! a"

definition getQueueSize :: "('p, 'r) TaskPool \<Rightarrow> nat" where
  "getQueueSize p = length (queue p)"

text \<open>
  \<^verbatim>\<open>Array.prototype.slice(0, end)\<close> for an integer \<open>end\<close>: a negative \<open>end\<close> counts from
  the end of the array.
\<close>

definition slice0 :: "int \<Rightarrow> 'a list \<Rightarrow> 'a list" where
  "slice0 e xs = (if e < 0 then take (length xs - nat (- e)) xs else take (nat e) xs)"

text \<open>
  \<^verbatim>\<open>getHistory\<close> copies and reverses the array; its elements are the stored objects, so
  the result is a list of addresses. \<^verbatim>\<open>limit ? ... : ...\<close> tests the limit for
  truthiness: \<open>undefined\<close> and \<open>0\<close> are falsy.
\<close>

definition getHistory :: "('p, 'r) TaskPool \<Rightarrow> int option \<Rightarrow> addr list" where
  "getHistory p limit =
     (let history = rev (history p)
      in case limit of
           None \<Rightarrow> history
         | Some l \<Rightarrow> if l \<noteq> 0 then slice0 l history else history)"

definition getRunById :: "('p, 'r) TaskPool \<Rightarrow> string \<Rightarrow> ('p, 'r) TaskRun option" where
  "getRunById p runId =
     (if (case currentRun p of None \<Rightarrow> False | Some a \<Rightarrow> id' (deref p a) = runId)
      then map_option (deref p) (currentRun p)
      else case find (\<lambda>a. id' (deref p a) = runId) (queue p) of
             Some a \<Rightarrow> Some (deref p a)
           | None \<Rightarrow> map_option (deref p) (find (\<lambda>a. id' (deref p a) = runId) (history p)))"

definition getCurrentRun :: "('p, 'r) TaskPool \<Rightarrow> ('p, 'r) TaskRun option" where
  "getCurrentRun p = map_option (deref p) (currentRun p)"

definition isRunning_pool :: "('p, 'r) TaskPool \<Rightarrow> bool" where
  "isRunning_pool p = isProcessing p"

definition getStats :: "('p, 'r) TaskPool \<Rightarrow> PoolStats" where
  "getStats p =
     (let runs = map (deref p) (history p);
          completedRuns = length (filter (\<lambda>run. status run = COMPLETED) runs);
          failedRuns = length (filter (\<lambda>run. status run = FAILED) runs);
          durations = map (\<lambda>run. case duration run of None \<Rightarrow> 0 | Some d \<Rightarrow> d)
                        (filter (\<lambda>run. duration run \<noteq> None) runs);
          averageDurationMs =
            (if length durations > 0
             then of_int (foldl (\<lambda>sum duration. sum + duration) 0 durations)
                    / of_int (int (length durations))
             else 0)
      in \<lparr> totalRuns = length (history p),
           completedRuns = completedRuns,
           failedRuns = failedRuns,
           currentQueueSize = length (queue p),
           isRunning = isProcessing p,
           averageDurationMs = Math_round averageDurationMs \<rparr>)"

subsection \<open>Enqueueing and dispatch\<close>

definition generateRunId :: "int \<Rightarrow> ('p, 'r) TaskPool \<Rightarrow> string \<times> ('p, 'r) TaskPool" where
  "generateRunId timestamp p =
     (let p' = p\<lparr>runCounter := runCounter p + 1\<rparr>
      in (''run-'' @ show_int timestamp @ ''-'' @ show_nat (runCounter p'), p'))"

text \<open>
  \<^verbatim>\<open>processNextTask\<close> up to its \<^verbatim>\<open>await\<close>. \<^verbatim>\<open>queue.shift()\<close> on an empty queue gives
  \<open>undefined\<close>, which is the \<^verbatim>\<open>!taskRun\<close> branch.
\<close>

definition processNextTask :: "int \<Rightarrow> ('p, 'r) TaskPool \<Rightarrow> ('p, 'r) TaskPool" where
  "processNextTask now p =
     (if isProcessing p \<or> isShuttingDown p \<or> length (queue p) = 0 then p
      else case queue p of
             [] \<Rightarrow> p\<lparr>isProcessing := False\<rparr>
           | a # rest \<Rightarrow>
               p\<lparr> isProcessing := True, queue := rest, currentRun := Some a,
                  objects := (objects p)[a := (deref p a)
                    \<lparr> status := RUNNING, startedAt := Some now,
                      queueTime := Some (now - queuedAt (deref p a)) \<rparr>] \<rparr>)"

text \<open>
  \<^verbatim>\<open>enqueue\<close>: the three clock readings are those of \<^verbatim>\<open>generateRunId\<close>, of
  \<^verbatim>\<open>queuedAt\<close> and of \<^verbatim>\<open>startedAt\<close> (read only if the run is dispatched at once).
\<close>

definition enqueue ::
  "'p \<Rightarrow> int \<Rightarrow> int \<Rightarrow> int \<Rightarrow> ('p, 'r) TaskPool \<Rightarrow> ('p, 'r) TaskPool \<times> reply" where
  "enqueue ps timestamp queued now p =
     (if isShuttingDown p
      then (p, Threw ''Task pool is shutting down, cannot enqueue new tasks'')
      else
        let (runId, p1) = generateRunId timestamp p;
            taskRun = \<lparr> id' = runId, params = ps, status = PENDING, result = None,
                        error = None, startedAt = None, completedAt = None,
                        duration = None, queueTime = None, queuedAt = queued \<rparr>;
            p2 = p1\<lparr> objects := objects p1 @ [taskRun],
                     queue := queue p1 @ [length (objects p1)] \<rparr>
        in (processNextTask now p2, RunId runId))"

subsection \<open>Completion of a run\<close>

text \<open>
  The trimming loop of \<^verbatim>\<open>addToHistory\<close>. \<^verbatim>\<open>shift()\<close> on an empty array changes
  nothing, as \<open>tl []\<close> does. The loop need not end, so not returning is \<open>None\<close>.
\<close>

partial_function (option) trim_history :: "int \<Rightarrow> addr list \<Rightarrow> addr list option" where
  "trim_history m h = (if int (length h) > m then trim_history m (tl h) else Some h)"

declare trim_history.simps [code]

definition addToHistory :: "addr \<Rightarrow> ('p, 'r) TaskPool \<Rightarrow> ('p, 'r) TaskPool option" where
  "addToHistory a p =
     map_option (\<lambda>h. p\<lparr>history := h\<rparr>) (trim_history (maxHistorySize p) (history p @ [a]))"

text \<open>
  The continuation of \<^verbatim>\<open>processNextTask\<close> after the \<^verbatim>\<open>await\<close>. The local variable
  \<^verbatim>\<open>taskRun\<close> of the suspended call is the object in the current-run slot: only
  \<^verbatim>\<open>processNextTask\<close> assigns the slot, and it does nothing while \<^verbatim>\<open>isProcessing\<close> is set.

  \<open>settle\<close> is the \<^verbatim>\<open>try\<close> statement when it runs to its end: the assignments after the
  \<^verbatim>\<open>await\<close>, or those of the \<^verbatim>\<open>catch\<close> block. The start time was assigned before the
  \<^verbatim>\<open>await\<close>; on a run without one the source would throw, and \<open>settle\<close> leaves the
  duration unset.
\<close>

definition settle :: "'r outcome \<Rightarrow> int \<Rightarrow> ('p, 'r) TaskRun \<Rightarrow> ('p, 'r) TaskRun" where
  "settle out now taskRun =
     (case out of
        Fulfilled res \<Rightarrow>
          taskRun\<lparr> status := COMPLETED, result := Some res, completedAt := Some now,
                   duration := map_option (\<lambda>s. now - s) (startedAt taskRun) \<rparr>
      | Rejected err \<Rightarrow>
          taskRun\<lparr> status := FAILED, error := Some (normalize_error err),
                   completedAt := Some now,
                   duration := map_option (\<lambda>s. now - s) (startedAt taskRun) \<rparr>)"

text \<open>
  The \<^verbatim>\<open>catch\<close> block when the normalisation of the thrown value throws. The status has
  been assigned by then; the assignments of \<^verbatim>\<open>error\<close>, \<^verbatim>\<open>completedAt\<close> and
  \<^verbatim>\<open>duration\<close> are not reached, and neither is anything after the \<^verbatim>\<open>try\<close> statement: the
  run is not added to the history, the slot and the processing flag stay as they are, the
  callback is not called and no dispatch is scheduled. The exception ends the call.

  The host resumes a suspended call only once. The model does not keep track of this: it
  accepts a settlement whenever the slot is occupied, so its traces include those of the
  host.
\<close>

definition processNextTask_catch_throws ::
  "('p, 'r) TaskPool \<Rightarrow> ('p, 'r) TaskPool \<times> reply" where
  "processNextTask_catch_throws p =
     (case currentRun p of
        None \<Rightarrow> (p, NotEnabled)
      | Some a \<Rightarrow> (p\<lparr>objects := (objects p)[a := (deref p a)\<lparr>status := FAILED\<rparr>]\<rparr>, Unhandled))"

text \<open>
  The continuation when the \<^verbatim>\<open>try\<close> statement runs to its end. The callback receives
  \<^verbatim>\<open>taskRun\<close> itself, that is its address. The callback is code of the environment:
  whether it returns or throws is given with the event (\<open>callback_throws\<close>). When it
  throws, the exception ends the call before the next dispatch is scheduled; the history,
  the slot and the processing flag have been updated by then. The callback is taken not
  to call the pool while it runs.
\<close>

definition processNextTask_resume ::
  "bool \<Rightarrow> 'r outcome \<Rightarrow> int \<Rightarrow> ('p, 'r) TaskPool \<Rightarrow> (('p, 'r) TaskPool \<times> reply) option" where
  "processNextTask_resume callback_throws out now p =
     (case currentRun p of
        None \<Rightarrow> Some (p, NotEnabled)
      | Some a \<Rightarrow>
          (case addToHistory a (p\<lparr>objects := (objects p)[a := settle out now (deref p a)]\<rparr>) of
             None \<Rightarrow> None
           | Some p1 \<Rightarrow>
               let p2 = p1\<lparr>currentRun := None, isProcessing := False\<rparr>;
                   p3 = (if length (queue p2) > 0 \<and> \<not> isShuttingDown p2
                         then p2\<lparr>immediates := immediates p2 + 1\<rparr> else p2)
               in (case onProcessed p2 of
                     None \<Rightarrow> Some (p3, Done)
                   | Some cb \<Rightarrow> Some (if callback_throws then p2 else p3, Called cb a))))"

subsection \<open>History, shutdown, callback slot\<close>

definition clearHistory :: "('p, 'r) TaskPool \<Rightarrow> ('p, 'r) TaskPool" where
  "clearHistory p = p\<lparr>history := []\<rparr>"

definition setOnProcessed :: "callback \<Rightarrow> ('p, 'r) TaskPool \<Rightarrow> ('p, 'r) TaskPool" where
  "setOnProcessed cb p = p\<lparr>onProcessed := Some cb\<rparr>"

text \<open>
  \<^verbatim>\<open>cleanup\<close> up to its first \<^verbatim>\<open>await\<close>, and one wake-up of its polling loop.
\<close>

definition cleanup :: "('p, 'r) TaskPool \<Rightarrow> ('p, 'r) TaskPool \<times> reply" where
  "cleanup p =
     (let p1 = p\<lparr>isShuttingDown := True\<rparr>
      in if isProcessing p1 then (p1\<lparr>sleepers := sleepers p1 + 1\<rparr>, Waiting)
         else (p1\<lparr>queue := []\<rparr>, Resolved))"

definition cleanup_poll :: "('p, 'r) TaskPool \<Rightarrow> ('p, 'r) TaskPool \<times> reply" where
  "cleanup_poll p =
     (if sleepers p = 0 then (p, NotEnabled)
      else if isProcessing p then (p, Waiting)
      else (p\<lparr>queue := [], sleepers := sleepers p - 1\<rparr>, Resolved))"

subsection \<open>Events and traces\<close>

text \<open>
  What can happen to a pool: a call of a public method that changes it, the work
  function's promise settling, a scheduled \<^verbatim>\<open>setImmediate\<close> callback running, a sleeping
  \<^verbatim>\<open>cleanup\<close> waking up, and code outside the pool assigning to the fields of a run
  object it holds a reference to. The promise of the work function settles in one of
  three ways: with an outcome, the callback (if one is set) returning
  (\<open>TaskSettles\<close>); with an outcome, the callback (if one is set) throwing
  (\<open>TaskSettlesCallbackThrows\<close>); or rejected with a value on which the normalisation
  in the \<^verbatim>\<open>catch\<close> block throws (\<open>TaskRejectsUnconvertible\<close>).
\<close>

datatype ('p, 'r) event =
    Enqueue 'p int int int
  | TaskSettles "'r outcome" int
  | Immediate int
  | Cleanup
  | CleanupPoll
  | ClearHistory
  | SetOnProcessed callback
  | ExternalWrite addr "('p, 'r) TaskRun \<Rightarrow> ('p, 'r) TaskRun"
  | TaskSettlesCallbackThrows "'r outcome" int
  | TaskRejectsUnconvertible

definition external_write ::
  "addr \<Rightarrow> (('p, 'r) TaskRun \<Rightarrow> ('p, 'r) TaskRun) \<Rightarrow> ('p, 'r) TaskPool \<Rightarrow> ('p, 'r) TaskPool" where
  "external_write a f p =
     (if a < length (objects p) then p\<lparr>objects := (objects p)[a := f (deref p a)]\<rparr> else p)"

fun step :: "('p, 'r) event \<Rightarrow> ('p, 'r) TaskPool \<Rightarrow> (('p, 'r) TaskPool \<times> reply) option" where
  "step (Enqueue ps timestamp queued now) p = Some (enqueue ps timestamp queued now p)"
| "step (TaskSettles out now) p = processNextTask_resume False out now p"
| "step (TaskSettlesCallbackThrows out now) p = processNextTask_resume True out now p"
| "step TaskRejectsUnconvertible p = Some (processNextTask_catch_throws p)"
| "step (Immediate now) p =
     (if immediates p = 0 then Some (p, NotEnabled)
      else Some (processNextTask now (p\<lparr>immediates := immediates p - 1\<rparr>), Done))"
| "step Cleanup p = Some (cleanup p)"
| "step CleanupPoll p = Some (cleanup_poll p)"
| "step ClearHistory p = Some (clearHistory p, Done)"
| "step (SetOnProcessed cb) p = Some (setOnProcessed cb p, Done)"
| "step (ExternalWrite a f) p = Some (external_write a f p, Done)"

text \<open>A trace of events; \<open>None\<close> when some step never returns.\<close>

fun run :: "('p, 'r) event list \<Rightarrow> ('p, 'r) TaskPool \<Rightarrow> (('p, 'r) TaskPool \<times> reply list) option" where
  "run [] p = Some (p, [])"
| "run (e # es) p =
     (case step e p of
        None \<Rightarrow> None
      | Some (p1, r) \<Rightarrow>
          (case run es p1 of None \<Rightarrow> None | Some (p2, rs) \<Rightarrow> Some (p2, r # rs)))"

subsection \<open>Kinds of events, and the invariant of the pool\<close>

text \<open>
  \<open>pool_event\<close> holds of every event but a write by outside code. The invariant
  \<open>wf_core\<close> is what the pool's own code maintains: the processing flag mirrors the
  current-run slot; the addresses in the history, the slot and the queue are those of
  stored objects and increase in this order, so no object is held twice; a queued run is
  pending, a run in the history is finished, and no run but the current one is running.
  The current run is running, unless its \<^verbatim>\<open>catch\<close> block threw: then it is failed and
  has neither a result nor an error nor a duration (\<open>catch_threw\<close>). The result, error,
  duration and start time of every other run are set according to its status (\<open>run_ok\<close>).
\<close>

fun pool_event :: "('p, 'r) event \<Rightarrow> bool" where
  "pool_event (ExternalWrite a f) = False"
| "pool_event e = True"

definition slot :: "addr option \<Rightarrow> addr list" where
  "slot c = (case c of None \<Rightarrow> [] | Some a \<Rightarrow> [a])"

definition held :: "('p, 'r) TaskPool \<Rightarrow> addr list" where
  "held p = history p @ slot (currentRun p) @ queue p"

definition run_ok :: "('p, 'r) TaskRun \<Rightarrow> bool" where
  "run_ok r \<longleftrightarrow>
     (result r \<noteq> None) = (status r = COMPLETED)
   \<and> (error r \<noteq> None) = (status r = FAILED)
   \<and> (duration r \<noteq> None) = (status r = COMPLETED \<or> status r = FAILED)
   \<and> (startedAt r \<noteq> None) = (status r \<noteq> PENDING)"

definition catch_threw :: "('p, 'r) TaskRun \<Rightarrow> bool" where
  "catch_threw r \<longleftrightarrow>
     status r = FAILED \<and> result r = None \<and> error r = None \<and> duration r = None
   \<and> startedAt r \<noteq> None"

definition wf_core :: "('p, 'r) TaskPool \<Rightarrow> bool" where
  "wf_core p \<longleftrightarrow>
     (isProcessing p = (currentRun p \<noteq> None))
   \<and> sorted_wrt (<) (held p)
   \<and> (\<forall>a \<in> set (held p). a < length (objects p))
   \<and> (\<forall>a < length (objects p).
        (currentRun p = Some a \<longrightarrow>
           status (deref p a) = RUNNING \<and> run_ok (deref p a) \<or> catch_threw (deref p a))
      \<and> (currentRun p \<noteq> Some a \<longrightarrow> run_ok (deref p a) \<and> status (deref p a) \<noteq> RUNNING)
      \<and> (a \<in> set (queue p) \<longrightarrow> status (deref p a) = PENDING)
      \<and> (a \<in> set (history p) \<longrightarrow> status (deref p a) = COMPLETED \<or> status (deref p a) = FAILED))
   \<and> runCounter p = length (objects p)"

subsection \<open>Definitions for the statements about statistics and traces\<close>

text \<open>
  The durations recorded on the runs of the history, in order, and the average as the
  specification words it: the arithmetic mean rounded to the nearest integer, \<open>0\<close> when
  there is none.
\<close>

definition recorded_durations :: "('p, 'r) TaskPool \<Rightarrow> int list" where
  "recorded_durations p = List.map_filter (\<lambda>a. duration (deref p a)) (history p)"

definition spec_averageDurationMs :: "int list \<Rightarrow> int" where
  "spec_averageDurationMs ds =
     (if ds = [] then 0 else round (of_int (sum_list ds) / of_int (int (length ds)) :: rat))"

text \<open>Two runs are enqueued; the first completes after 4 ms, the second fails after 3 ms.\<close>

definition example_trace :: "(nat, nat) event list" where
  "example_trace =
     [Enqueue 1 1000 1000 1000, Enqueue 2 1000 1000 1000,
      TaskSettles (Fulfilled 2) 1004, Immediate 1004,
      TaskSettles (Rejected (JSString ''boom'')) 1007]"

text \<open>
  The identifiers that the \<^verbatim>\<open>enqueue\<close> calls of a trace returned, in call order; and
  identifiers whose counter part lies in a given range.
\<close>

fun enqueued_ids :: "reply list \<Rightarrow> string list" where
  "enqueued_ids [] = []"
| "enqueued_ids (RunId s # rs) = s # enqueued_ids rs"
| "enqueued_ids (r # rs) = enqueued_ids rs"

definition counters_between :: "nat \<Rightarrow> nat \<Rightarrow> string list \<Rightarrow> bool" where
  "counters_between lo hi ids \<longleftrightarrow>
     (\<forall>s \<in> set ids. \<exists>t c. s = ''run-'' @ show_int t @ ''-'' @ show_nat c \<and> lo < c \<and> c \<le> hi)"

text \<open>
  \<open>plain_event\<close> holds of the events of normal operation: no shutdown, no clearing of
  the history, no write by outside code. \<open>fifo_inv\<close> is the invariant of such traces:
  the stored objects are the enqueued runs in call order; for some \<open>h\<close> the runs below
  \<open>h\<close> are finished and the newest of them make up the history, and the runs from \<open>h\<close> on
  are the current run (if any) followed by the queue.
\<close>

fun plain_event :: "('p, 'r) event \<Rightarrow> bool" where
  "plain_event (Enqueue ps ts tq now) = True"
| "plain_event (TaskSettles out now) = True"
| "plain_event (TaskSettlesCallbackThrows out now) = True"
| "plain_event TaskRejectsUnconvertible = True"
| "plain_event (Immediate now) = True"
| "plain_event (SetOnProcessed cb) = True"
| "plain_event e = False"

fun enqueued_params :: "('p, 'r) event list \<Rightarrow> 'p list" where
  "enqueued_params [] = []"
| "enqueued_params (Enqueue ps ts tq now # es) = ps # enqueued_params es"
| "enqueued_params (e # es) = enqueued_params es"

definition fifo_inv :: "string list \<Rightarrow> 'p list \<Rightarrow> ('p, 'r) TaskPool \<Rightarrow> bool" where
  "fifo_inv ids pss p \<longleftrightarrow>
     \<not> isShuttingDown p
   \<and> map id' (objects p) = ids
   \<and> map params (objects p) = pss
   \<and> (\<exists>h \<le> length (objects p).
         history p = drop (h - nat (maxHistorySize p)) [0..<h]
       \<and> slot (currentRun p) @ queue p = [h..<length (objects p)]
       \<and> (\<forall>a < h. status (deref p a) = COMPLETED \<or> status (deref p a) = FAILED))"

text \<open>Two scenarios of the specification: three runs, and five runs with a bound of three.\<close>

definition three_tasks :: "(nat, nat) event list" where
  "three_tasks =
     [Enqueue 1 1000 1000 1000, Enqueue 2 1000 1000 1000, Enqueue 3 1001 1001 1001,
      TaskSettles (Fulfilled 2) 1050, Immediate 1050,
      TaskSettles (Fulfilled 4) 1080, Immediate 1081,
      TaskSettles (Fulfilled 6) 1101]"

definition five_tasks :: "(int, int) event list" where
  "five_tasks =
     [Enqueue 1 1000 1000 1000, Enqueue 2 1000 1000 1000, Enqueue 3 1000 1000 1000,
      TaskSettles (Fulfilled 2) 1001, Enqueue 4 1001 1001 1001, Enqueue 5 1001 1001 1001,
      Immediate 1001, TaskSettles (Fulfilled 4) 1002, Immediate 1002,
      TaskSettles (Fulfilled 6) 1002, Immediate 1003, TaskSettles (Fulfilled 8) 1003,
      Immediate 1003, TaskSettles (Fulfilled 10) 1004]"

text \<open>
  For shutdown: a \<^verbatim>\<open>cleanup\<close> call sleeps only after it has set the shutdown flag; \<open>shut\<close>
  is the state in which a \<^verbatim>\<open>cleanup\<close> call resolves; \<open>discarded Q\<close> says that the pool is
  shutting down and that the runs at the addresses \<open>Q\<close> have not been started.
\<close>

definition sleepers_ok :: "('p, 'r) TaskPool \<Rightarrow> bool" where
  "sleepers_ok p \<longleftrightarrow> (0 < sleepers p \<longrightarrow> isShuttingDown p)"

definition shut :: "('p, 'r) TaskPool \<Rightarrow> bool" where
  "shut p \<longleftrightarrow> isShuttingDown p \<and> queue p = [] \<and> \<not> isProcessing p"

definition discarded :: "addr set \<Rightarrow> ('p, 'r) TaskPool \<Rightarrow> bool" where
  "discarded Q p \<longleftrightarrow>
     isShuttingDown p
   \<and> (\<forall>a \<in> Q. status (deref p a) = PENDING \<and> a \<notin> set (history p) \<and> currentRun p \<noteq> Some a)"

text \<open>
  Two runs are enqueued, \<^verbatim>\<open>cleanup\<close> is called while the first executes, then the first
  completes; the second is still queued and the \<^verbatim>\<open>cleanup\<close> call is still asleep.
\<close>

definition shutdown_trace :: "(nat, nat) event list" where
  "shutdown_trace =
     [Enqueue 1 1000 1000 1000, Enqueue 2 1000 1000 1000, Cleanup, TaskSettles (Fulfilled 2) 1004]"

text \<open>
  A work function that rejects with a value on which the normalisation throws, for
  instance \<^verbatim>\<open>Object.create(null)\<close>: one run is enqueued and rejects in this way; then a
  second run is enqueued and the event loop runs whatever dispatch is scheduled; then
  \<^verbatim>\<open>cleanup\<close> is called and its polling loop wakes up once.
\<close>

definition unconvertible_rejection :: "(nat, nat) event list" where
  "unconvertible_rejection = [Enqueue 1 1000 1000 1000, TaskRejectsUnconvertible]"

definition second_run_after_rejection :: "(nat, nat) event list" where
  "second_run_after_rejection =
     [Enqueue 1 1000 1000 1000, TaskRejectsUnconvertible, Enqueue 2 1001 1001 1001,
      Immediate 1002]"

definition cleanup_after_rejection :: "(nat, nat) event list" where
  "cleanup_after_rejection = second_run_after_rejection @ [Cleanup, CleanupPoll]"

text \<open>
  The events that let the work function's promise settle, and what stays as it is while
  a run occupies the slot and none of them happens.
\<close>

fun settlement :: "('p, 'r) event \<Rightarrow> bool" where
  "settlement (TaskSettles out now) = True"
| "settlement (TaskSettlesCallbackThrows out now) = True"
| "settlement TaskRejectsUnconvertible = True"
| "settlement e = False"

definition halted_at :: "addr \<Rightarrow> addr list \<Rightarrow> ('p, 'r) TaskPool \<Rightarrow> bool" where
  "halted_at a q p \<longleftrightarrow>
     isProcessing p \<and> currentRun p = Some a \<and> take (length q) (queue p) = q"

text \<open>
  Serving the queue: each entry lets the work function of the current run settle with the
  given outcome at the first time, and lets the dispatch that the pool scheduled run at
  the second time.
\<close>

fun serve :: "('r outcome \<times> int \<times> int) list \<Rightarrow> ('p, 'r) event list" where
  "serve [] = []"
| "serve ((out, t, t') # os) = TaskSettles out t # Immediate t' # serve os"

section \<open>The trimming loop\<close>

text \<open>
  For a bound that is not negative the loop of \<open>addToHistory\<close> drops entries from the
  front until the bound is met; for a negative bound it never stops, since the length
  of an empty array stays above the bound.
\<close>

lemma trim_history_nonneg: "0 \<le> m \<Longrightarrow> trim_history m h = Some (drop (length h - nat m) h)"
proof (induction "length h - nat m" arbitrary: h)
  case 0
  then show ?case by (subst trim_history.simps) auto
next
  case (Suc k)
  have gt: "int (length h) > m" using Suc.hyps(2) Suc.prems by linarith
  have k: "k = length (tl h) - nat m" using Suc.hyps(2) by simp
  have "trim_history m h = trim_history m (tl h)"
    using gt by (subst trim_history.simps) simp
  also have "\<dots> = Some (drop k (tl h))"
    using Suc.hyps(1)[OF k Suc.prems] k by simp
  also have "drop k (tl h) = drop (Suc k) h" by (simp add: drop_Suc)
  finally show ?case using Suc.hyps(2) by simp
qed

lemma trim_history_Some_nonneg:
  assumes "trim_history m h = Some y"
  shows "0 \<le> m"
proof (rule trim_history.raw_induct [OF _ assms])
  fix f :: "int \<Rightarrow> addr list \<Rightarrow> addr list option" and m h r
  assume IH: "\<And>m h r. f m h = Some r \<Longrightarrow> 0 \<le> m"
    and eq: "(if m < int (length h) then f m (tl h) else Some h) = Some r"
  show "0 \<le> m"
  proof (cases "m < int (length h)")
    case True
    with eq IH show ?thesis by simp
  next
    case False
    then show ?thesis by simp
  qed
qed

lemma trim_history_negative: "m < 0 \<Longrightarrow> trim_history m h = None"
  using trim_history_Some_nonneg [of m h] by (cases "trim_history m h") auto

lemma addToHistory_nonneg:
  "0 \<le> maxHistorySize p \<Longrightarrow>
   addToHistory a p =
     Some (p\<lparr>history := drop (Suc (length (history p)) - nat (maxHistorySize p)) (history p @ [a])\<rparr>)"
  by (simp add: addToHistory_def trim_history_nonneg)

lemma addToHistory_negative: "maxHistorySize p < 0 \<Longrightarrow> addToHistory a p = None"
  by (simp add: addToHistory_def trim_history_negative)

text \<open>
  Claim C10. The constructor stores whatever bound it is given. \<open>addToHistory\<close> returns
  for every bound that is not negative. For a negative bound it never returns, so the
  step that completes a run never returns either: the first completion hangs the pool.
\<close>

theorem addToHistory_terminates_iff_nonneg:
  fixes p :: "('p, 'r) TaskPool"
  shows
  "maxHistorySize (new_TaskPool (Some m) :: ('p, 'r) TaskPool) = m
   \<and> (0 \<le> maxHistorySize p \<longrightarrow> (\<exists>p'. addToHistory a p = Some p'))
   \<and> (maxHistorySize p < 0 \<longrightarrow> addToHistory a p = None)
   \<and> (maxHistorySize p < 0 \<and> currentRun p \<noteq> None \<longrightarrow> step (TaskSettles out now) p = None)
   \<and> (m < 0 \<longrightarrow>
        run [Enqueue ps ts tq t0, TaskSettles out now] (new_TaskPool (Some m) :: ('p, 'r) TaskPool) = None)"
proof -
  have c: "maxHistorySize (new_TaskPool (Some m) :: ('p, 'r) TaskPool) = m"
    by (simp add: new_TaskPool_def)
  have hang: "step (TaskSettles out now) q = None"
    if "maxHistorySize q < 0" "currentRun q \<noteq> None" for q :: "('p, 'r) TaskPool"
    using that by (auto simp: processNextTask_resume_def addToHistory_negative)
  have first: "run [Enqueue ps ts tq t0, TaskSettles out now] (new_TaskPool (Some m) :: ('p, 'r) TaskPool) = None"
    if "m < 0"
    using that
    by (simp add: new_TaskPool_def enqueue_def generateRunId_def processNextTask_def
        processNextTask_resume_def addToHistory_negative Let_def)
  show ?thesis
  proof (intro conjI impI)
    show "maxHistorySize (new_TaskPool (Some m) :: ('p, 'r) TaskPool) = m" by (rule c)
    show "\<exists>p'. addToHistory a p = Some p'" if "0 \<le> maxHistorySize p"
      using that by (simp add: addToHistory_nonneg)
    show "addToHistory a p = None" if "maxHistorySize p < 0"
      using that by (rule addToHistory_negative)
    show "step (TaskSettles out now) p = None" if "maxHistorySize p < 0 \<and> currentRun p \<noteq> None"
      using that hang by blast
    show "run [Enqueue ps ts tq t0, TaskSettles out now] (new_TaskPool (Some m) :: ('p, 'r) TaskPool) = None"
      if "m < 0" using that by (rule first)
  qed
qed

theorem addToHistory_terminates_iff_nonneg_witness:
  "maxHistorySize (new_TaskPool (Some (- 1)) :: (nat, nat) TaskPool) = - 1
   \<and> (\<exists>p'. addToHistory 0 (new_TaskPool (Some 2) :: (nat, nat) TaskPool) = Some p')
   \<and> addToHistory 0 (fst (enqueue 3 1 1 1 (new_TaskPool (Some (- 1)) :: (nat, nat) TaskPool))) = None
   \<and> step (TaskSettles (Fulfilled 7) 5)
        (fst (enqueue 3 1 1 1 (new_TaskPool (Some (- 1)) :: (nat, nat) TaskPool))) = None
   \<and> run [Enqueue 3 1 1 1, TaskSettles (Fulfilled 7) 5]
        (new_TaskPool (Some (- 1)) :: (nat, nat) TaskPool) = None"
  using addToHistory_terminates_iff_nonneg
          [of "- 1" "new_TaskPool (Some 2) :: (nat, nat) TaskPool" 0 "Fulfilled 7" 5 3 1 1 1]
        addToHistory_terminates_iff_nonneg
          [of "- 1" "fst (enqueue 3 1 1 1 (new_TaskPool (Some (- 1)) :: (nat, nat) TaskPool))"
              0 "Fulfilled 7" 5 3 1 1 1]
  by (simp add: new_TaskPool_def enqueue_def generateRunId_def processNextTask_def Let_def
         deref_def)

section \<open>The invariant is maintained\<close>

lemma wf_new: "wf_core (new_TaskPool opts)"
  by (simp add: wf_core_def new_TaskPool_def held_def slot_def)

lemma wf_core_immediates [simp]: "wf_core (p\<lparr>immediates := k\<rparr>) = wf_core p"
  by (simp add: wf_core_def held_def deref_def)

lemma wf_core_sleepers [simp]: "wf_core (p\<lparr>sleepers := k\<rparr>) = wf_core p"
  by (simp add: wf_core_def held_def deref_def)

lemma wf_core_onProcessed [simp]: "wf_core (p\<lparr>onProcessed := k\<rparr>) = wf_core p"
  by (simp add: wf_core_def held_def deref_def)

lemma wf_core_isShuttingDown [simp]: "wf_core (p\<lparr>isShuttingDown := k\<rparr>) = wf_core p"
  by (simp add: wf_core_def held_def deref_def)

lemma wf_core_held:
  assumes "wf_core p"
  shows "\<forall>a \<in> set (history p). a < length (objects p) \<and> currentRun p \<noteq> Some a \<and> a \<notin> set (queue p)"
    and "\<forall>a \<in> set (queue p). a < length (objects p) \<and> currentRun p \<noteq> Some a"
    and "\<forall>a. currentRun p = Some a \<longrightarrow> a < length (objects p)"
proof -
  have srt: "sorted_wrt (<) (history p @ slot (currentRun p) @ queue p)"
    and bnd: "\<forall>a \<in> set (history p @ slot (currentRun p) @ queue p). a < length (objects p)"
    using assms by (simp_all add: wf_core_def held_def)
  show "\<forall>a \<in> set (history p). a < length (objects p) \<and> currentRun p \<noteq> Some a \<and> a \<notin> set (queue p)"
    using srt bnd by (auto simp: sorted_wrt_append slot_def)
  show "\<forall>a \<in> set (queue p). a < length (objects p) \<and> currentRun p \<noteq> Some a"
    using srt bnd by (auto simp: sorted_wrt_append slot_def)
  show "\<forall>a. currentRun p = Some a \<longrightarrow> a < length (objects p)"
    using bnd by (auto simp: slot_def)
qed

lemma wf_core_processNextTask:
  assumes "wf_core p"
  shows "wf_core (processNextTask now p)"
proof (cases "isProcessing p \<or> isShuttingDown p \<or> queue p = []")
  case True
  then show ?thesis using assms by (auto simp: processNextTask_def)
next
  case False
  then obtain a rest where q: "queue p = a # rest" by (cases "queue p") auto
  from False assms have cur: "currentRun p = None" by (simp add: wf_core_def)
  have srt: "sorted_wrt (<) (history p @ a # rest)"
    and bnd: "\<forall>b \<in> set (history p @ a # rest). b < length (objects p)"
    using assms q cur by (simp_all add: wf_core_def held_def slot_def)
  have a_lt: "a < length (objects p)" using bnd by simp
  have a_rest: "a \<notin> set rest" and a_hist: "a \<notin> set (history p)"
    using srt by (auto simp: sorted_wrt_append)
  have pend: "status (objects p ! a) = PENDING" and ok: "run_ok (objects p ! a)"
    using assms q a_lt cur by (auto simp: wf_core_def deref_def)
  have others: "\<forall>b < length (objects p). run_ok (objects p ! b) \<and> status (objects p ! b) \<noteq> RUNNING
      \<and> (b \<in> set rest \<longrightarrow> status (objects p ! b) = PENDING)
      \<and> (b \<in> set (history p) \<longrightarrow> status (objects p ! b) = COMPLETED \<or> status (objects p ! b) = FAILED)"
    using assms q cur by (auto simp: wf_core_def deref_def)
  let ?r = "(objects p ! a)\<lparr>status := RUNNING, startedAt := Some now,
              queueTime := Some (now - queuedAt (objects p ! a))\<rparr>"
  have eq: "processNextTask now p = p\<lparr>isProcessing := True, queue := rest, currentRun := Some a,
              objects := (objects p)[a := ?r]\<rparr>"
    using False q by (simp add: processNextTask_def deref_def)
  have new: "status ?r = RUNNING \<and> run_ok ?r" using pend ok by (simp add: run_ok_def)
  show ?thesis
    unfolding eq wf_core_def
  proof (intro conjI allI impI ballI)
    fix b
    assume "b < length (objects (p\<lparr>isProcessing := True, queue := rest, currentRun := Some a,
              objects := (objects p)[a := ?r]\<rparr>))"
    then have b: "b < length (objects p)" by simp
    let ?p' = "p\<lparr>isProcessing := True, queue := rest, currentRun := Some a,
              objects := (objects p)[a := ?r]\<rparr>"
    show "status (deref ?p' b) = RUNNING \<and> run_ok (deref ?p' b) \<or> catch_threw (deref ?p' b)"
      if "currentRun ?p' = Some b"
      using that new a_lt by (simp add: deref_def)
    show "run_ok (deref ?p' b)" if "currentRun ?p' \<noteq> Some b"
      using that others b by (simp add: deref_def)
    show "status (deref ?p' b) \<noteq> RUNNING" if "currentRun ?p' \<noteq> Some b"
      using that others b by (simp add: deref_def)
    show "status (deref ?p' b) = PENDING" if "b \<in> set (queue ?p')"
      using that others b a_rest by (cases "b = a") (auto simp: deref_def)
    show "status (deref ?p' b) = COMPLETED \<or> status (deref ?p' b) = FAILED" if "b \<in> set (history ?p')"
      using that others b a_hist by (cases "b = a") (auto simp: deref_def)
  qed (use srt bnd assms in \<open>auto simp: held_def slot_def wf_core_def\<close>)
qed

lemma wf_core_push:
  assumes core: "wf_core p" and r: "status r = PENDING" "run_ok r"
  shows "wf_core (p\<lparr>runCounter := runCounter p + 1, objects := objects p @ [r],
                    queue := queue p @ [length (objects p)]\<rparr>)"
    (is "wf_core ?p2")
proof -
  have bnd: "\<forall>b \<in> set (held p). b < length (objects p)" using core by (simp add: wf_core_def)
  have "sorted_wrt (<) (held ?p2)"
    using core bnd by (auto simp: wf_core_def held_def sorted_wrt_append)
  moreover have "\<forall>a < length (objects ?p2).
        (currentRun ?p2 = Some a \<longrightarrow>
           status (deref ?p2 a) = RUNNING \<and> run_ok (deref ?p2 a) \<or> catch_threw (deref ?p2 a))
      \<and> (currentRun ?p2 \<noteq> Some a \<longrightarrow> run_ok (deref ?p2 a) \<and> status (deref ?p2 a) \<noteq> RUNNING)
      \<and> (a \<in> set (queue ?p2) \<longrightarrow> status (deref ?p2 a) = PENDING)
      \<and> (a \<in> set (history ?p2) \<longrightarrow> status (deref ?p2 a) = COMPLETED \<or> status (deref ?p2 a) = FAILED)"
    using core bnd r
    by (auto simp: wf_core_def held_def deref_def nth_append slot_def less_Suc_eq)
  moreover have "\<forall>a \<in> set (held ?p2). a < length (objects ?p2)"
    using bnd by (auto simp: held_def less_Suc_eq)
  moreover have "isProcessing ?p2 = (currentRun ?p2 \<noteq> None)" "runCounter ?p2 = length (objects ?p2)"
    using core by (simp_all add: wf_core_def)
  ultimately show ?thesis
    unfolding wf_core_def by blast
qed

lemma wf_enqueue:
  assumes "wf_core p"
  shows "wf_core (fst (enqueue ps ts tq now p))"
proof (cases "isShuttingDown p")
  case True
  then show ?thesis using assms by (simp add: enqueue_def)
next
  case False
  let ?r = "\<lparr> id' = fst (generateRunId ts p), params = ps, status = PENDING, result = None,
                        error = None, startedAt = None, completedAt = None,
                        duration = None, queueTime = None, queuedAt = tq \<rparr> :: ('a, 'b) TaskRun"
  let ?p2 = "p\<lparr> runCounter := runCounter p + 1, objects := objects p @ [?r],
                     queue := queue p @ [length (objects p)] \<rparr>"
  have "wf_core ?p2" by (rule wf_core_push [OF assms]) (simp_all add: run_ok_def)
  then have "wf_core (processNextTask now ?p2)" by (rule wf_core_processNextTask)
  then show ?thesis using False by (simp add: enqueue_def generateRunId_def Let_def)
qed

lemma run_ok_settle:
  "status r = RUNNING \<and> run_ok r \<or> catch_threw r \<Longrightarrow>
   run_ok (settle out now r) \<and> (status (settle out now r) = COMPLETED \<or> status (settle out now r) = FAILED)"
  by (cases out) (auto simp: run_ok_def settle_def catch_threw_def)

lemma processNextTask_resume_Some:
  assumes "processNextTask_resume t out now p = Some (p', r)" "currentRun p = Some a"
  shows "0 \<le> maxHistorySize p"
    and "p' = p\<lparr> objects := (objects p)[a := settle out now (deref p a)],
                   history := drop (Suc (length (history p)) - nat (maxHistorySize p)) (history p @ [a]),
                   currentRun := None, isProcessing := False,
                   immediates := (if queue p \<noteq> [] \<and> \<not> isShuttingDown p \<and> \<not> (t \<and> onProcessed p \<noteq> None)
                                  then immediates p + 1 else immediates p) \<rparr>"
    and "r = (case onProcessed p of None \<Rightarrow> Done | Some cb \<Rightarrow> Called cb a)"
proof -
  show nn: "0 \<le> maxHistorySize p"
  proof (rule ccontr)
    assume "\<not> 0 \<le> maxHistorySize p"
    then have "addToHistory a (p\<lparr>objects := (objects p)[a := settle out now (deref p a)]\<rparr>) = None"
      by (simp add: addToHistory_negative)
    with assms show False by (simp add: processNextTask_resume_def)
  qed
  show "p' = p\<lparr> objects := (objects p)[a := settle out now (deref p a)],
                   history := drop (Suc (length (history p)) - nat (maxHistorySize p)) (history p @ [a]),
                   currentRun := None, isProcessing := False,
                   immediates := (if queue p \<noteq> [] \<and> \<not> isShuttingDown p \<and> \<not> (t \<and> onProcessed p \<noteq> None)
                                  then immediates p + 1 else immediates p) \<rparr>"
    using assms nn
    by (auto simp: processNextTask_resume_def addToHistory_nonneg Let_def split: option.splits)
  show "r = (case onProcessed p of None \<Rightarrow> Done | Some cb \<Rightarrow> Called cb a)"
    using assms nn
    by (auto simp: processNextTask_resume_def addToHistory_nonneg Let_def split: option.splits)
qed

lemma wf_resume:
  assumes "wf_core p" "processNextTask_resume t out now p = Some (p', r)"
  shows "wf_core p'"
proof (cases "currentRun p")
  case None
  then show ?thesis using assms by (simp add: processNextTask_resume_def)
next
  case (Some a)
  note eq = processNextTask_resume_Some(2) [OF assms(2) Some]
  define k where "k = Suc (length (history p)) - nat (maxHistorySize p)"
  note core = assms(1)
  have srt: "sorted_wrt (<) (history p @ a # queue p)"
    and bnd: "\<forall>b \<in> set (history p @ a # queue p). b < length (objects p)"
    using core Some by (simp_all add: wf_core_def held_def slot_def)
  have a_lt: "a < length (objects p)" using bnd by simp
  have a_q: "a \<notin> set (queue p)" and a_h: "a \<notin> set (history p)"
    using srt by (auto simp: sorted_wrt_append)
  have cur: "status (objects p ! a) = RUNNING \<and> run_ok (objects p ! a) \<or> catch_threw (objects p ! a)"
    using core Some a_lt by (auto simp: wf_core_def deref_def)
  note st = run_ok_settle [OF cur, of out now]
  have others: "\<forall>b < length (objects p). b \<noteq> a \<longrightarrow> run_ok (objects p ! b) \<and> status (objects p ! b) \<noteq> RUNNING
      \<and> (b \<in> set (queue p) \<longrightarrow> status (objects p ! b) = PENDING)
      \<and> (b \<in> set (history p) \<longrightarrow> status (objects p ! b) = COMPLETED \<or> status (objects p ! b) = FAILED)"
    using core Some by (auto simp: wf_core_def deref_def)
  have sub: "set (drop k (history p @ [a])) \<subseteq> set (history p) \<union> {a}"
    using set_drop_subset [of k "history p @ [a]"] by auto
  have srt': "sorted_wrt (<) (drop k (history p @ [a]) @ queue p)"
  proof -
    have "sorted_wrt (<) (drop k (history p @ a # queue p))"
      using srt by (rule sorted_wrt_drop)
    moreover have "history p @ a # queue p = (history p @ [a]) @ queue p" by simp
    moreover have "k - length (history p @ [a]) = 0" by (simp add: k_def)
    ultimately show ?thesis by (simp only: drop_append drop_0)
  qed
  have none: "currentRun p' = None" by (simp add: eq)
  show "wf_core p'"
    unfolding wf_core_def
  proof (intro conjI allI impI ballI)
    show "isProcessing p' = (currentRun p' \<noteq> None)" by (simp add: eq)
    show "sorted_wrt (<) (held p')" using srt' by (simp add: eq held_def slot_def k_def)
    show "b < length (objects p')" if "b \<in> set (held p')" for b
      using that bnd sub by (auto simp: eq held_def slot_def k_def)
    show "runCounter p' = length (objects p')" using core by (simp add: eq wf_core_def)
  next
    fix b assume b: "b < length (objects p')"
    then have b': "b < length (objects p)" by (simp add: eq)
    show "status (deref p' b) = RUNNING \<and> run_ok (deref p' b) \<or> catch_threw (deref p' b)"
      if "currentRun p' = Some b"
      using that none by simp
    show "run_ok (deref p' b)"
      using b' st others a_lt by (cases "b = a") (auto simp: eq deref_def)
    show "status (deref p' b) \<noteq> RUNNING"
      using b' st others a_lt by (cases "b = a") (auto simp: eq deref_def)
    show "status (deref p' b) = PENDING" if "b \<in> set (queue p')"
      using that b' others a_q by (cases "b = a") (auto simp: eq deref_def)
    show "status (deref p' b) = COMPLETED \<or> status (deref p' b) = FAILED" if "b \<in> set (history p')"
    proof (cases "b = a")
      case True
      then show ?thesis using st a_lt by (simp add: eq deref_def)
    next
      case False
      with that sub have "b \<in> set (history p)" by (auto simp: eq k_def)
      then show ?thesis using False b' others by (simp add: eq deref_def)
    qed
  qed
qed

lemma wf_catch_throws:
  assumes "wf_core p"
  shows "wf_core (fst (processNextTask_catch_throws p))"
proof (cases "currentRun p")
  case None
  then show ?thesis using assms by (simp add: processNextTask_catch_throws_def)
next
  case (Some a)
  let ?p' = "p\<lparr>objects := (objects p)[a := (objects p ! a)\<lparr>status := FAILED\<rparr>]\<rparr>"
  have eq: "fst (processNextTask_catch_throws p) = ?p'"
    using Some by (simp add: processNextTask_catch_throws_def deref_def)
  have a_lt: "a < length (objects p)" using wf_core_held(3) [OF assms] Some by simp
  have a_q: "a \<notin> set (queue p)" using wf_core_held(2) [OF assms] Some by auto
  have a_h: "a \<notin> set (history p)" using wf_core_held(1) [OF assms] Some by auto
  have cur: "status (objects p ! a) = RUNNING \<and> run_ok (objects p ! a) \<or> catch_threw (objects p ! a)"
    using assms Some a_lt by (auto simp: wf_core_def deref_def)
  then have new: "catch_threw ((objects p ! a)\<lparr>status := FAILED\<rparr>)"
    by (auto simp: catch_threw_def run_ok_def)
  have others: "\<forall>b < length (objects p). b \<noteq> a \<longrightarrow> run_ok (objects p ! b) \<and> status (objects p ! b) \<noteq> RUNNING
      \<and> (b \<in> set (queue p) \<longrightarrow> status (objects p ! b) = PENDING)
      \<and> (b \<in> set (history p) \<longrightarrow> status (objects p ! b) = COMPLETED \<or> status (objects p ! b) = FAILED)"
    using assms Some by (auto simp: wf_core_def deref_def)
  show ?thesis
    unfolding eq wf_core_def
  proof (intro conjI allI impI ballI)
    fix b assume "b < length (objects ?p')"
    then have b: "b < length (objects p)" by simp
    show "status (deref ?p' b) = RUNNING \<and> run_ok (deref ?p' b) \<or> catch_threw (deref ?p' b)"
      if "currentRun ?p' = Some b"
      using that Some new a_lt by (simp add: deref_def)
    show "run_ok (deref ?p' b)" if "currentRun ?p' \<noteq> Some b"
      using that Some others b by (simp add: deref_def)
    show "status (deref ?p' b) \<noteq> RUNNING" if "currentRun ?p' \<noteq> Some b"
      using that Some others b by (simp add: deref_def)
    show "status (deref ?p' b) = PENDING" if "b \<in> set (queue ?p')"
      using that others b a_q by (cases "b = a") (auto simp: deref_def)
    show "status (deref ?p' b) = COMPLETED \<or> status (deref ?p' b) = FAILED" if "b \<in> set (history ?p')"
      using that others b a_h by (cases "b = a") (auto simp: deref_def)
  qed (use assms in \<open>auto simp: held_def wf_core_def\<close>)
qed

lemma wf_core_drop_queue: "wf_core p \<Longrightarrow> wf_core (p\<lparr>queue := []\<rparr>)"
  by (auto simp: wf_core_def held_def deref_def sorted_wrt_append)

lemma wf_core_drop_history: "wf_core p \<Longrightarrow> wf_core (p\<lparr>history := []\<rparr>)"
  by (auto simp: wf_core_def held_def deref_def sorted_wrt_append)

lemma wf_cleanup: "wf_core p \<Longrightarrow> wf_core (fst (cleanup p))"
  by (auto simp: cleanup_def Let_def wf_core_drop_queue)

lemma wf_cleanup_poll: "wf_core p \<Longrightarrow> wf_core (fst (cleanup_poll p))"
  by (auto simp: cleanup_poll_def wf_core_drop_queue)

lemma wf_clearHistory: "wf_core p \<Longrightarrow> wf_core (clearHistory p)"
  by (auto simp: clearHistory_def wf_core_drop_history)

lemma wf_setOnProcessed: "wf_core p \<Longrightarrow> wf_core (setOnProcessed cb p)"
  by (auto simp: setOnProcessed_def)

lemma wf_step:
  assumes "wf_core p" "pool_event e" "step e p = Some (p', r)"
  shows "wf_core p'"
proof (cases e)
  case (Enqueue ps ts tq now)
  then show ?thesis using assms wf_enqueue [of p ps ts tq now] by auto
next
  case (TaskSettles out now)
  then show ?thesis using assms wf_resume by auto
next
  case (Immediate now)
  then show ?thesis using assms
    by (auto simp: wf_core_processNextTask split: if_splits)
next
  case Cleanup
  then show ?thesis using assms wf_cleanup [of p] by auto
next
  case CleanupPoll
  then show ?thesis using assms wf_cleanup_poll [of p] by auto
next
  case ClearHistory
  then show ?thesis using assms wf_clearHistory [of p] by auto
next
  case (SetOnProcessed cb)
  then show ?thesis using assms wf_setOnProcessed [of p cb] by auto
next
  case (ExternalWrite a f)
  then show ?thesis using assms by simp
next
  case (TaskSettlesCallbackThrows out now)
  then show ?thesis using assms wf_resume by auto
next
  case TaskRejectsUnconvertible
  then show ?thesis using assms wf_catch_throws [of p] by auto
qed

lemma wf_run:
  "wf_core p \<Longrightarrow> list_all pool_event evs \<Longrightarrow> run evs p = Some (p', rs) \<Longrightarrow> wf_core p'"
proof (induction evs arbitrary: p rs)
  case Nil
  then show ?case by simp
next
  case (Cons e evs)
  from Cons.prems(3) obtain p1 r rs1 where s: "step e p = Some (p1, r)"
    and r: "run evs p1 = Some (p', rs1)"
    by (auto split: option.splits)
  from Cons.prems s have "wf_core p1" by (auto intro: wf_step)
  with Cons.IH r Cons.prems(2) show ?case by auto
qed

lemma wf_reachable:
  "list_all pool_event evs \<Longrightarrow> run evs (new_TaskPool opts) = Some (p, rs) \<Longrightarrow> wf_core p"
  using wf_run [OF wf_new] by blast

section \<open>Results and errors of finished runs, statistics\<close>

lemma digit_char_numerals:
  "digit_char 0 = CHR ''0''" "digit_char (Suc 0) = CHR ''1''" "digit_char 1 = CHR ''1''"
  "digit_char 2 = CHR ''2''" "digit_char 3 = CHR ''3''" "digit_char 4 = CHR ''4''"
  "digit_char 5 = CHR ''5''" "digit_char 6 = CHR ''6''" "digit_char 7 = CHR ''7''"
  "digit_char 8 = CHR ''8''" "digit_char 9 = CHR ''9''"
  "digit_char (Suc (Suc 0)) = CHR ''2''" "digit_char (Suc (Suc (Suc 0))) = CHR ''3''"
  by code_simp+

lemmas eval_defs =
  new_TaskPool_def enqueue_def generateRunId_def processNextTask_def processNextTask_resume_def
  processNextTask_catch_throws_def addToHistory_nonneg settle_def deref_def Let_def cleanup_def
  cleanup_poll_def clearHistory_def setOnProcessed_def external_write_def

text \<open>
  What the pool's own code maintains: every run but the current one has a result exactly
  when it is completed and an error exactly when it is failed, and every run in the
  history is finished and has exactly one of the two.
\<close>

lemma result_and_error_of_runs:
  assumes "run evs (new_TaskPool opts) = Some (p, rs)" and "list_all pool_event evs"
  shows "\<forall>a < length (objects p). currentRun p \<noteq> Some a \<longrightarrow>
            (result (deref p a) \<noteq> None) = (status (deref p a) = COMPLETED)
          \<and> (error (deref p a) \<noteq> None) = (status (deref p a) = FAILED)"
    and "\<forall>a \<in> set (history p). a < length (objects p)
          \<and> (status (deref p a) = COMPLETED \<or> status (deref p a) = FAILED)
          \<and> (result (deref p a) = None) \<noteq> (error (deref p a) = None)"
proof -
  have wf: "wf_core p" using wf_reachable [OF assms(2) assms(1)] .
  have ok: "run_ok (deref p a)" if "a < length (objects p)" "currentRun p \<noteq> Some a" for a
    using that wf by (auto simp: wf_core_def)
  show "\<forall>a < length (objects p). currentRun p \<noteq> Some a \<longrightarrow>
            (result (deref p a) \<noteq> None) = (status (deref p a) = COMPLETED)
          \<and> (error (deref p a) \<noteq> None) = (status (deref p a) = FAILED)"
    using ok by (auto simp: run_ok_def)
  show "\<forall>a \<in> set (history p). a < length (objects p)
          \<and> (status (deref p a) = COMPLETED \<or> status (deref p a) = FAILED)
          \<and> (result (deref p a) = None) \<noteq> (error (deref p a) = None)"
  proof
    fix a assume a: "a \<in> set (history p)"
    with wf_core_held(1) [OF wf] have lt: "a < length (objects p)" and nc: "currentRun p \<noteq> Some a"
      by auto
    from wf a lt have fin: "status (deref p a) = COMPLETED \<or> status (deref p a) = FAILED"
      by (auto simp: wf_core_def)
    from ok [OF lt nc] fin have "(result (deref p a) = None) \<noteq> (error (deref p a) = None)"
      by (auto simp: run_ok_def)
    with lt fin show "a < length (objects p)
          \<and> (status (deref p a) = COMPLETED \<or> status (deref p a) = FAILED)
          \<and> (result (deref p a) = None) \<noteq> (error (deref p a) = None)" by simp
  qed
qed

text \<open>
  Claim C2 does not hold of the code. When the work function rejects with a value on
  which the normalisation throws, the \<^verbatim>\<open>catch\<close> block has set the status to
  \<^verbatim>\<open>FAILED\<close> and is left before it assigns the error. Here one run is enqueued and its
  work function rejects in this way: the stored run is failed and has neither a result nor
  an error (and neither a completion time nor a duration), and this is what
  \<^verbatim>\<open>getRunById\<close> and \<^verbatim>\<open>getCurrentRun\<close> hand out.
\<close>

theorem failed_run_without_result_or_error:
  "\<exists>p rs. run unconvertible_rejection (new_TaskPool None) = Some (p, rs)
     \<and> rs = [RunId ''run-1000-1'', Unhandled]
     \<and> map status (objects p) = [FAILED]
     \<and> map result (objects p) = [None]
     \<and> map error (objects p) = [None]
     \<and> map completedAt (objects p) = [None]
     \<and> map duration (objects p) = [None]
     \<and> map_option status (getRunById p ''run-1000-1'') = Some FAILED
     \<and> map_option result (getRunById p ''run-1000-1'') = Some None
     \<and> map_option error (getRunById p ''run-1000-1'') = Some None
     \<and> map_option status (getCurrentRun p) = Some FAILED
     \<and> map_option error (getCurrentRun p) = Some None"
  by (simp add: unconvertible_rejection_def eval_defs getRunById_def getCurrentRun_def
        show_int_def show_nat.simps digit_char_numerals)

lemma foldl_plus_sum_list: "foldl (\<lambda>sum duration. sum + duration) (a :: int) ds = a + sum_list ds"
  by (induction ds arbitrary: a) auto

lemma durations_map_filter:
  "map (\<lambda>run. case duration run of None \<Rightarrow> 0 | Some d \<Rightarrow> d) (filter (\<lambda>run. duration run \<noteq> None) (map f xs))
   = List.map_filter (\<lambda>a. duration (f a)) xs"
  by (induction xs) auto

lemma floor_half: "\<lfloor>1 / 2 :: rat\<rfloor> = 0"
  by (simp add: floor_eq_iff)

lemma getStats_average: "averageDurationMs (getStats p) = spec_averageDurationMs (recorded_durations p)"
proof -
  have "averageDurationMs (getStats p) =
          Math_round (if length (recorded_durations p) > 0
                      then of_int (foldl (\<lambda>sum duration. sum + duration) 0 (recorded_durations p))
                             / of_int (int (length (recorded_durations p)))
                      else 0)"
    unfolding getStats_def Let_def durations_map_filter recorded_durations_def by simp
  then show ?thesis
    by (simp add: spec_averageDurationMs_def foldl_plus_sum_list floor_half Math_round_def round_def)
qed

lemma map_Some_map_filter:
  "\<forall>a \<in> set xs. f a \<noteq> None \<Longrightarrow> map f xs = map Some (List.map_filter f xs)"
  by (induction xs) auto

lemma recorded_all:
  assumes "wf_core p"
  shows "map (\<lambda>a. duration (deref p a)) (history p) = map Some (recorded_durations p)"
proof -
  have "duration (deref p a) \<noteq> None" if a: "a \<in> set (history p)" for a
  proof -
    from wf_core_held(1) [OF assms] a have lt: "a < length (objects p)"
      and nc: "currentRun p \<noteq> Some a" by auto
    with assms a have "run_ok (deref p a)"
      and "status (deref p a) = COMPLETED \<or> status (deref p a) = FAILED"
      by (auto simp: wf_core_def)
    then show ?thesis by (auto simp: run_ok_def)
  qed
  then have "\<forall>a \<in> set (history p). duration (deref p a) \<noteq> None" by blast
  then show ?thesis unfolding recorded_durations_def
    by (rule map_Some_map_filter)
qed

text \<open>
  Claim C7. In every reachable state \<open>getStats\<close> reports as total the length of the history,
  which holds finished runs only and neither a queued run nor the current one. Every run
  of the history has a recorded duration, and the reported average is the mean of these
  durations rounded to the nearest integer (at most one half away from the mean), or
  \<open>0\<close> when the history is empty.
\<close>

theorem getStats_counts_history_and_rounds_mean:
  assumes "run evs (new_TaskPool opts) = Some (p, rs)" and "list_all pool_event evs"
  shows "totalRuns (getStats p) = length (history p)
       \<and> totalRuns (getStats p) = length (getHistory p None)
       \<and> (\<forall>a \<in> set (history p). status (deref p a) = COMPLETED \<or> status (deref p a) = FAILED)
       \<and> (\<forall>a \<in> set (queue p). a \<notin> set (history p))
       \<and> (\<forall>a. currentRun p = Some a \<longrightarrow> a \<notin> set (history p))
       \<and> map (\<lambda>a. duration (deref p a)) (history p) = map Some (recorded_durations p)
       \<and> averageDurationMs (getStats p) = spec_averageDurationMs (recorded_durations p)
       \<and> (history p = [] \<longrightarrow> averageDurationMs (getStats p) = 0)
       \<and> (history p \<noteq> [] \<longrightarrow>
            \<bar>of_int (averageDurationMs (getStats p))
               - of_int (sum_list (recorded_durations p)) / of_int (int (length (history p))) :: rat\<bar> \<le> 1 / 2)"
proof -
  have wf: "wf_core p" using wf_reachable [OF assms(2) assms(1)] .
  have srt: "sorted_wrt (<) (history p @ slot (currentRun p) @ queue p)"
    and bnd: "\<forall>a \<in> set (history p). a < length (objects p)"
    using wf by (auto simp: wf_core_def held_def)
  have t1: "totalRuns (getStats p) = length (history p)" by (simp add: getStats_def Let_def)
  have t2: "totalRuns (getStats p) = length (getHistory p None)"
    by (simp add: getStats_def getHistory_def Let_def)
  have fin: "\<forall>a \<in> set (history p). status (deref p a) = COMPLETED \<or> status (deref p a) = FAILED"
    using wf bnd by (auto simp: wf_core_def)
  have q: "\<forall>a \<in> set (queue p). a \<notin> set (history p)"
    using srt by (auto simp: sorted_wrt_append)
  have c: "\<forall>a. currentRun p = Some a \<longrightarrow> a \<notin> set (history p)"
    using srt by (auto simp: sorted_wrt_append slot_def)
  note rec = recorded_all [OF wf]
  have len: "length (recorded_durations p) = length (history p)"
    using arg_cong [OF rec, of length] by simp
  note avg = getStats_average [of p]
  have e: "averageDurationMs (getStats p) = 0" if "history p = []"
    using that avg len by (simp add: spec_averageDurationMs_def)
  have n: "\<bar>of_int (averageDurationMs (getStats p))
               - of_int (sum_list (recorded_durations p)) / of_int (int (length (history p))) :: rat\<bar> \<le> 1 / 2"
    if "history p \<noteq> []"
  proof -
    from that len have "recorded_durations p \<noteq> []" by auto
    then have "averageDurationMs (getStats p) =
       round (of_int (sum_list (recorded_durations p)) / of_int (int (length (history p))) :: rat)"
      using avg len by (simp add: spec_averageDurationMs_def)
    then show ?thesis by (simp only: of_int_round_abs_le)
  qed
  from t1 t2 fin q c rec avg e n show ?thesis by blast
qed

theorem getStats_counts_history_and_rounds_mean_witness:
  "(\<exists>p rs. run example_trace (new_TaskPool None) = Some (p, rs)
     \<and> list_all pool_event example_trace
     \<and> history p = [0, 1] \<and> recorded_durations p = [4, 3]
     \<and> totalRuns (getStats p) = 2 \<and> averageDurationMs (getStats p) = 4
     \<and> totalRuns (getStats p) = length (getHistory p None)
     \<and> averageDurationMs (getStats p) = spec_averageDurationMs (recorded_durations p)
     \<and> \<bar>of_int (averageDurationMs (getStats p))
               - of_int (sum_list (recorded_durations p)) / of_int (int (length (history p))) :: rat\<bar> \<le> 1 / 2)
   \<and> (\<exists>p rs. run [Enqueue (1::nat) 1000 1000 1000] (new_TaskPool None :: (nat, nat) TaskPool) = Some (p, rs)
     \<and> list_all pool_event [Enqueue (1::nat) 1000 1000 1000 :: (nat, nat) event]
     \<and> history p = [] \<and> totalRuns (getStats p) = 0 \<and> averageDurationMs (getStats p) = 0)"
proof -
  have "\<exists>p rs. run [Enqueue (1::nat) 1000 1000 1000] (new_TaskPool None :: (nat, nat) TaskPool) = Some (p, rs)
           \<and> history p = []"
    by (simp add: eval_defs)
  then obtain p0 :: "(nat, nat) TaskPool" and rs0
    where r0: "run [Enqueue (1::nat) 1000 1000 1000] (new_TaskPool None) = Some (p0, rs0)"
    and h0: "history p0 = []"
    by (elim exE conjE)
  have ev0: "list_all pool_event [Enqueue (1::nat) 1000 1000 1000 :: (nat, nat) event]" by simp
  note t0 = getStats_counts_history_and_rounds_mean [OF r0 ev0]
  have z1: "totalRuns (getStats p0) = 0" using t0 h0 by simp
  have z2: "averageDurationMs (getStats p0) = 0" using t0 h0 by blast
  have second: "\<exists>p rs. run [Enqueue (1::nat) 1000 1000 1000] (new_TaskPool None :: (nat, nat) TaskPool) = Some (p, rs)
     \<and> list_all pool_event [Enqueue (1::nat) 1000 1000 1000 :: (nat, nat) event]
     \<and> history p = [] \<and> totalRuns (getStats p) = 0 \<and> averageDurationMs (getStats p) = 0"
    by (intro exI [of _ p0] exI [of _ rs0] conjI) (rule r0 ev0 h0 z1 z2)+
  have "\<exists>p rs. run example_trace (new_TaskPool None) = Some (p, rs)
           \<and> history p = [0, 1] \<and> recorded_durations p = [4, 3]"
    by (simp add: example_trace_def eval_defs recorded_durations_def List.map_filter_def)
  then obtain p rs where r: "run example_trace (new_TaskPool None) = Some (p, rs)"
    and h: "history p = [0, 1]" and d: "recorded_durations p = [4, 3]"
    by (elim exE conjE)
  have ev: "list_all pool_event example_trace" by (simp add: example_trace_def)
  note t = getStats_counts_history_and_rounds_mean [OF r ev]
  have ne: "history p \<noteq> []" using h by simp
  have a: "averageDurationMs (getStats p) = spec_averageDurationMs (recorded_durations p)"
    using t by (elim conjE)
  have a4: "averageDurationMs (getStats p) = 4"
    unfolding a d by (simp add: spec_averageDurationMs_def round_def floor_eq_iff)
  have n: "totalRuns (getStats p) = length (history p)" using t by (elim conjE)
  have n2: "totalRuns (getStats p) = 2" unfolding n h by simp
  have g: "totalRuns (getStats p) = length (getHistory p None)" using t by (elim conjE)
  have m: "\<bar>of_int (averageDurationMs (getStats p))
               - of_int (sum_list (recorded_durations p)) / of_int (int (length (history p))) :: rat\<bar> \<le> 1 / 2"
    using t ne by (elim conjE) (erule (1) impE)
  have first: "\<exists>p rs. run example_trace (new_TaskPool None) = Some (p, rs)
     \<and> list_all pool_event example_trace
     \<and> history p = [0, 1] \<and> recorded_durations p = [4, 3]
     \<and> totalRuns (getStats p) = 2 \<and> averageDurationMs (getStats p) = 4
     \<and> totalRuns (getStats p) = length (getHistory p None)
     \<and> averageDurationMs (getStats p) = spec_averageDurationMs (recorded_durations p)
     \<and> \<bar>of_int (averageDurationMs (getStats p))
               - of_int (sum_list (recorded_durations p)) / of_int (int (length (history p))) :: rat\<bar> \<le> 1 / 2"
    by (intro exI [of _ p] exI [of _ rs] conjI) (rule r ev h d n2 a4 g a m)+
  from first second show ?thesis by (rule conjI)
qed

section \<open>Run identifiers\<close>

lemma digit_char_eq: "d < 10 \<Longrightarrow> e < 10 \<Longrightarrow> digit_char d = digit_char e \<Longrightarrow> d = e"
proof -
  assume d: "d < 10" and e: "e < 10" and eq: "digit_char d = digit_char e"
  from eq have "of_char (digit_char d) = (of_char (digit_char e) :: nat)" by simp
  with d e show "d = e" by (simp add: digit_char_def)
qed

lemma digit_char_not_dash: "d < 10 \<Longrightarrow> digit_char d \<noteq> CHR ''-''"
proof
  assume d: "d < 10" and eq: "digit_char d = CHR ''-''"
  from eq have "of_char (digit_char d) = (of_char CHR ''-'' :: nat)" by simp
  with d show False by (simp add: digit_char_def)
qed

lemma show_nat_not_Nil: "show_nat n \<noteq> []"
  by (subst show_nat.simps) simp

lemma show_nat_no_dash: "CHR ''-'' \<notin> set (show_nat n)"
proof (induction n rule: show_nat.induct)
  case (1 n)
  show ?case
  proof (cases "n < 10")
    case True
    then show ?thesis using digit_char_not_dash [of n] by (subst show_nat.simps) auto
  next
    case False
    then show ?thesis using 1 digit_char_not_dash [of "n mod 10"]
      by (subst show_nat.simps) auto
  qed
qed

lemma show_nat_inj: "show_nat m = show_nat n \<Longrightarrow> m = n"
proof (induction m arbitrary: n rule: show_nat.induct)
  case (1 m)
  note eq = "1.prems"
  show ?case
  proof (cases "m < 10")
    case m: True
    show ?thesis
    proof (cases "n < 10")
      case True
      with m eq show ?thesis
        by (simp add: show_nat.simps [of m] show_nat.simps [of n] digit_char_eq)
    next
      case False
      with m eq show_nat_not_Nil [of "n div 10"] show ?thesis
        by (simp add: show_nat.simps [of m] show_nat.simps [of n] Cons_eq_append_conv)
    qed
  next
    case m: False
    show ?thesis
    proof (cases "n < 10")
      case True
      with m eq show_nat_not_Nil [of "m div 10"] show ?thesis
        by (simp add: show_nat.simps [of m] show_nat.simps [of n] append_eq_Cons_conv)
    next
      case False
      with m eq have a: "show_nat (m div 10) = show_nat (n div 10)"
        and b: "digit_char (m mod 10) = digit_char (n mod 10)"
        by (simp_all add: show_nat.simps [of m] show_nat.simps [of n])
      from "1.IH" [OF m a] have "m div 10 = n div 10" .
      moreover from b have "m mod 10 = n mod 10" by (simp add: digit_char_eq)
      ultimately show ?thesis by (metis div_mult_mod_eq)
    qed
  qed
qed

lemma after_last_dash:
  assumes "CHR ''-'' \<notin> set d" "CHR ''-'' \<notin> set e" "x @ CHR ''-'' # d = y @ CHR ''-'' # e"
  shows "d = e"
proof -
  have "takeWhile (\<lambda>c. c \<noteq> CHR ''-'') (rev (x @ CHR ''-'' # d)) = rev d"
    using assms(1) by (auto simp: takeWhile_tail)
  moreover have "takeWhile (\<lambda>c. c \<noteq> CHR ''-'') (rev (y @ CHR ''-'' # e)) = rev e"
    using assms(2) by (auto simp: takeWhile_tail)
  ultimately have "rev d = rev e" using assms(3) by simp
  then show ?thesis by simp
qed

lemma run_id_counter_inj:
  assumes "''run-'' @ show_int t @ ''-'' @ show_nat c = ''run-'' @ show_int t' @ ''-'' @ show_nat c'"
  shows "c = c'"
proof -
  from assms have "(''run-'' @ show_int t) @ CHR ''-'' # show_nat c
      = (''run-'' @ show_int t') @ CHR ''-'' # show_nat c'" by simp
  then have "show_nat c = show_nat c'"
    by (rule after_last_dash [OF show_nat_no_dash show_nat_no_dash])
  then show ?thesis by (rule show_nat_inj)
qed

lemma processNextTask_runCounter [simp]: "runCounter (processNextTask now p) = runCounter p"
  by (simp add: processNextTask_def split: list.splits)

lemma step_runCounter:
  assumes "step e p = Some (p', r)"
  shows "(\<forall>s. r = RunId s \<longrightarrow>
            runCounter p' = Suc (runCounter p)
          \<and> (\<exists>t. s = ''run-'' @ show_int t @ ''-'' @ show_nat (Suc (runCounter p))))
       \<and> ((\<forall>s. r \<noteq> RunId s) \<longrightarrow> runCounter p' = runCounter p)"
proof -
  have resume: ?thesis if res: "processNextTask_resume t out now p = Some (p', r)" for t out now
  proof (cases "currentRun p")
    case None
    then show ?thesis using res by (simp add: processNextTask_resume_def)
  next
    case (Some a)
    note eqs = processNextTask_resume_Some(2,3) [OF res Some]
    have "runCounter p' = runCounter p" by (subst eqs(1)) simp
    moreover have "\<forall>s. r \<noteq> RunId s" by (subst eqs(2)) (simp split: option.splits)
    ultimately show ?thesis by simp
  qed
  show ?thesis
  proof (cases e)
    case (Enqueue ps ts tq now)
    then show ?thesis using assms
      by (auto simp: enqueue_def generateRunId_def Let_def split: if_splits)
  next
    case (TaskSettles out now)
    with assms have "processNextTask_resume False out now p = Some (p', r)" by simp
    then show ?thesis by (rule resume)
  next
    case (Immediate now)
    then show ?thesis using assms by (auto split: if_splits)
  next
    case Cleanup
    then show ?thesis using assms by (auto simp: cleanup_def Let_def split: if_splits)
  next
    case CleanupPoll
    then show ?thesis using assms by (auto simp: cleanup_poll_def split: if_splits)
  next
    case ClearHistory
    then show ?thesis using assms by (auto simp: clearHistory_def)
  next
    case (SetOnProcessed cb)
    then show ?thesis using assms by (auto simp: setOnProcessed_def)
  next
    case (ExternalWrite a f)
    then show ?thesis using assms by (auto simp: external_write_def)
  next
    case (TaskSettlesCallbackThrows out now)
    with assms have "processNextTask_resume True out now p = Some (p', r)" by simp
    then show ?thesis by (rule resume)
  next
    case TaskRejectsUnconvertible
    then show ?thesis using assms
      by (auto simp: processNextTask_catch_throws_def split: option.splits)
  qed
qed

lemma run_ids:
  "run evs p = Some (p', rs) \<Longrightarrow>
   runCounter p' = runCounter p + length (enqueued_ids rs)
   \<and> counters_between (runCounter p) (runCounter p') (enqueued_ids rs)
   \<and> distinct (enqueued_ids rs)"
proof (induction evs arbitrary: p rs)
  case Nil
  then show ?case by (simp add: counters_between_def)
next
  case (Cons e evs)
  from Cons.prems obtain p1 r rs1 where s: "step e p = Some (p1, r)"
    and r: "run evs p1 = Some (p', rs1)" and rs: "rs = r # rs1"
    by (auto split: option.splits)
  note IH = Cons.IH [OF r]
  note IH1 = IH [THEN conjunct1]
  note IH2 = IH [THEN conjunct2, THEN conjunct1]
  note IH3 = IH [THEN conjunct2, THEN conjunct2]
  note st = step_runCounter [OF s]
  show ?case
  proof (cases "\<exists>s. r = RunId s")
    case True
    then obtain s where rid: "r = RunId s" by blast
    with st obtain t where c1: "runCounter p1 = Suc (runCounter p)"
      and sid: "s = ''run-'' @ show_int t @ ''-'' @ show_nat (Suc (runCounter p))" by blast
    have "s \<notin> set (enqueued_ids rs1)"
    proof
      assume "s \<in> set (enqueued_ids rs1)"
      with IH2 obtain t' c where "s = ''run-'' @ show_int t' @ ''-'' @ show_nat c"
        and "runCounter p1 < c" by (auto simp: counters_between_def)
      with sid c1 run_id_counter_inj [of t "Suc (runCounter p)" t' c] show False by simp
    qed
    moreover have "counters_between (runCounter p) (runCounter p') (s # enqueued_ids rs1)"
      unfolding counters_between_def
    proof
      fix u assume "u \<in> set (s # enqueued_ids rs1)"
      then consider "u = s" | "u \<in> set (enqueued_ids rs1)" by auto
      then show "\<exists>t c. u = ''run-'' @ show_int t @ ''-'' @ show_nat c
                    \<and> runCounter p < c \<and> c \<le> runCounter p'"
      proof cases
        case 1
        have "runCounter p < Suc (runCounter p) \<and> Suc (runCounter p) \<le> runCounter p'"
          using IH1 c1 by simp
        with 1 sid show ?thesis by blast
      next
        case 2
        with IH2 obtain t' c where "u = ''run-'' @ show_int t' @ ''-'' @ show_nat c"
          and "runCounter p1 < c" and "c \<le> runCounter p'" by (auto simp: counters_between_def)
        moreover from this c1 have "runCounter p < c" by simp
        ultimately show ?thesis by blast
      qed
    qed
    moreover have "runCounter p' = runCounter p + length (enqueued_ids rs)"
      using IH1 c1 rid rs by simp
    ultimately show ?thesis using IH3 rid rs by simp
  next
    case False
    then have "enqueued_ids (r # rs1) = enqueued_ids rs1" by (cases r) auto
    moreover from False st have "runCounter p1 = runCounter p" by blast
    ultimately show ?thesis using IH1 IH2 IH3 rs by simp
  qed
qed

text \<open>
  Claim C9. Whatever happens to a pool, the identifiers returned by its successful
  \<^verbatim>\<open>enqueue\<close> calls are pairwise distinct, whatever the clock readings (all equal, for
  instance). The counter equals the number of identifiers handed out; no step lowers it
  and every successful \<^verbatim>\<open>enqueue\<close> raises it.
\<close>

theorem run_ids_distinct_counter_increases:
  fixes p :: "('p, 'r) TaskPool"
  assumes "run evs (new_TaskPool opts) = Some (p, rs)"
  shows "distinct (enqueued_ids rs)
       \<and> runCounter p = length (enqueued_ids rs)
       \<and> (\<forall>(e :: ('p, 'r) event) q q' r. step e q = Some (q', r) \<longrightarrow>
             runCounter q \<le> runCounter q' \<and> (\<forall>s. r = RunId s \<longrightarrow> runCounter q < runCounter q'))"
proof -
  note r = run_ids [OF assms]
  have "runCounter (new_TaskPool opts) = 0" by (simp add: new_TaskPool_def)
  with r have "runCounter p = length (enqueued_ids rs)" by simp
  moreover have "runCounter q \<le> runCounter q' \<and> (\<forall>s. r = RunId s \<longrightarrow> runCounter q < runCounter q')"
    if "step e q = Some (q', r)" for e :: "('p, 'r) event" and q q' r
    using step_runCounter [OF that] by (cases "\<exists>s. r = RunId s") auto
  ultimately show ?thesis using r by blast
qed

theorem run_ids_distinct_counter_increases_witness:
  "\<exists>p rs. run [Enqueue (1::nat) 1000 1000 1000, Enqueue 2 1000 1000 1000, Enqueue 3 1000 1000 1000]
              (new_TaskPool None :: (nat, nat) TaskPool) = Some (p, rs)
     \<and> enqueued_ids rs = [''run-1000-1'', ''run-1000-2'', ''run-1000-3'']
     \<and> distinct (enqueued_ids rs)
     \<and> runCounter p = length (enqueued_ids rs)
     \<and> (\<exists>q s. step (Enqueue 4 1000 1000 1000) p = Some (q, RunId s) \<and> runCounter p < runCounter q)"
proof -
  have "\<exists>p rs. run [Enqueue (1::nat) 1000 1000 1000, Enqueue 2 1000 1000 1000, Enqueue 3 1000 1000 1000]
              (new_TaskPool None :: (nat, nat) TaskPool) = Some (p, rs)
     \<and> enqueued_ids rs = [''run-1000-1'', ''run-1000-2'', ''run-1000-3'']"
    by (simp add: eval_defs show_int_def show_nat.simps digit_char_numerals)
  then obtain p rs where r: "run [Enqueue (1::nat) 1000 1000 1000, Enqueue 2 1000 1000 1000, Enqueue 3 1000 1000 1000]
              (new_TaskPool None :: (nat, nat) TaskPool) = Some (p, rs)"
    and i: "enqueued_ids rs = [''run-1000-1'', ''run-1000-2'', ''run-1000-3'']"
    by (elim exE conjE)
  note t = run_ids_distinct_counter_increases [OF r]
  have "\<exists>q s. step (Enqueue 4 1000 1000 1000) p = Some (q, RunId s)"
    using r by (auto simp: eval_defs split: if_splits)
  then obtain q s where e: "step (Enqueue 4 1000 1000 1000) p = Some (q, RunId s)" by blast
  with t have "runCounter p < runCounter q" by blast
  with e have st: "\<exists>q s. step (Enqueue 4 1000 1000 1000) p = Some (q, RunId s) \<and> runCounter p < runCounter q"
    by blast
  show ?thesis
    by (rule exI [of _ p], rule exI [of _ rs], intro conjI)
       (rule r i t [THEN conjunct1] t [THEN conjunct2, THEN conjunct1] st)+
qed

section \<open>Order of execution and the bound on the history\<close>

lemma plain_pool_event: "plain_event e \<Longrightarrow> pool_event e"
  by (cases e) auto

lemma map_update_same:
  assumes "f y = f (xs ! a)"
  shows "map f (xs[a := y]) = map f xs"
proof (rule nth_equalityI)
  show "length (map f (xs[a := y])) = length (map f xs)" by simp
  show "map f (xs[a := y]) ! i = map f xs ! i" if "i < length (map f (xs[a := y]))" for i
    using that assms by (cases "i = a") simp_all
qed

lemma fifo_processNextTask:
  assumes "wf_core p" "fifo_inv ids pss p"
  shows "fifo_inv ids pss (processNextTask now p)"
proof (cases "isProcessing p \<or> isShuttingDown p \<or> queue p = []")
  case True
  then show ?thesis using assms by (auto simp: processNextTask_def)
next
  case False
  then obtain a rest where q: "queue p = a # rest" by (cases "queue p") auto
  from False assms(1) have cur: "currentRun p = None" by (simp add: wf_core_def)
  from assms(2) obtain h where h: "h \<le> length (objects p)"
    and hist: "history p = drop (h - nat (maxHistorySize p)) [0..<h]"
    and seg: "slot (currentRun p) @ queue p = [h..<length (objects p)]"
    and fin: "\<forall>b < h. status (deref p b) = COMPLETED \<or> status (deref p b) = FAILED"
    by (auto simp: fifo_inv_def)
  from seg q cur have "[h..<length (objects p)] = a # rest" by (simp add: slot_def)
  then have ah: "a = h" and hn: "h < length (objects p)"
    by (auto simp: upt_eq_Cons_conv)
  let ?r = "(deref p a)\<lparr>status := RUNNING, startedAt := Some now,
              queueTime := Some (now - queuedAt (deref p a))\<rparr>"
  have eq: "processNextTask now p = p\<lparr>isProcessing := True, queue := rest, currentRun := Some a,
              objects := (objects p)[a := ?r]\<rparr>"
    using False q by (simp add: processNextTask_def)
  have "map id' ((objects p)[a := ?r]) = ids" "map params ((objects p)[a := ?r]) = pss"
    using assms(2) by (simp_all add: fifo_inv_def map_update_same deref_def)
  moreover have "\<forall>b < h. status (deref (processNextTask now p) b) = COMPLETED
                     \<or> status (deref (processNextTask now p) b) = FAILED"
    using fin ah by (auto simp: eq deref_def)
  moreover have "slot (currentRun (processNextTask now p)) @ queue (processNextTask now p)
                   = [h..<length (objects (processNextTask now p))]"
    using seg q cur by (simp add: eq slot_def)
  ultimately show ?thesis
    using assms(2) h hist unfolding fifo_inv_def
    by (intro conjI exI [of _ h]) (simp_all add: eq)
qed

lemma drop_upt_snoc:
  "drop (Suc (length (drop (h - m) [0..<h])) - m) (drop (h - m) [0..<h] @ [h])
     = drop (Suc h - m) [0..<Suc h]"
proof (cases "h < m")
  case True
  then show ?thesis by simp
next
  case False
  then have "Suc h - m = Suc (h - m)" by simp
  with False show ?thesis by (simp add: drop_Suc tl_drop)
qed

lemma fifo_enqueue:
  assumes "wf_core p" "fifo_inv ids pss p"
  shows "\<exists>s. snd (enqueue ps ts tq now p) = RunId s
           \<and> fifo_inv (ids @ [s]) (pss @ [ps]) (fst (enqueue ps ts tq now p))"
proof -
  let ?s = "fst (generateRunId ts p)"
  let ?r = "\<lparr> id' = ?s, params = ps, status = PENDING, result = None,
                        error = None, startedAt = None, completedAt = None,
                        duration = None, queueTime = None, queuedAt = tq \<rparr> :: ('a, 'b) TaskRun"
  let ?p2 = "p\<lparr> runCounter := runCounter p + 1, objects := objects p @ [?r],
                     queue := queue p @ [length (objects p)] \<rparr>"
  have ns: "\<not> isShuttingDown p" using assms(2) by (simp add: fifo_inv_def)
  note core = assms(1)
  have core2: "wf_core ?p2" by (rule wf_core_push [OF core]) (simp_all add: run_ok_def)
  from assms(2) obtain h where h: "h \<le> length (objects p)"
    and hist: "history p = drop (h - nat (maxHistorySize p)) [0..<h]"
    and seg: "slot (currentRun p) @ queue p = [h..<length (objects p)]"
    and fin: "\<forall>b < h. status (deref p b) = COMPLETED \<or> status (deref p b) = FAILED"
    by (auto simp: fifo_inv_def)
  have "fifo_inv (ids @ [?s]) (pss @ [ps]) ?p2"
    unfolding fifo_inv_def
  proof (intro conjI exI [of _ h])
    show "\<not> isShuttingDown ?p2" using ns by simp
    show "map id' (objects ?p2) = ids @ [?s]" using assms(2) by (simp add: fifo_inv_def)
    show "map params (objects ?p2) = pss @ [ps]" using assms(2) by (simp add: fifo_inv_def)
    show "h \<le> length (objects ?p2)" using h by simp
    show "history ?p2 = drop (h - nat (maxHistorySize ?p2)) [0..<h]" using hist by simp
    show "slot (currentRun ?p2) @ queue ?p2 = [h..<length (objects ?p2)]"
      using seg h by (simp flip: append_assoc)
    show "\<forall>a < h. status (deref ?p2 a) = COMPLETED \<or> status (deref ?p2 a) = FAILED"
      using fin h by (auto simp: deref_def nth_append)
  qed
  then have "fifo_inv (ids @ [?s]) (pss @ [ps]) (processNextTask now ?p2)"
    by (rule fifo_processNextTask [OF core2])
  then show ?thesis using ns by (simp add: enqueue_def generateRunId_def Let_def)
qed

lemma status_settle: "status (settle out now r) = COMPLETED \<or> status (settle out now r) = FAILED"
  by (cases out) (simp_all add: settle_def)

lemma id_settle [simp]: "id' (settle out now r) = id' r" "params (settle out now r) = params r"
  by (cases out; simp add: settle_def)+

lemma fifo_resume:
  assumes "fifo_inv ids pss p" "processNextTask_resume t out now p = Some (p', r)"
  shows "fifo_inv ids pss p' \<and> (\<forall>s. r \<noteq> RunId s)"
proof (cases "currentRun p")
  case None
  then show ?thesis using assms by (auto simp: processNextTask_resume_def)
next
  case (Some a)
  note eq = processNextTask_resume_Some(2) [OF assms(2) Some]
  note rep = processNextTask_resume_Some(3) [OF assms(2) Some]
  from assms(1) obtain h where h: "h \<le> length (objects p)"
    and hist: "history p = drop (h - nat (maxHistorySize p)) [0..<h]"
    and seg: "slot (currentRun p) @ queue p = [h..<length (objects p)]"
    and fin: "\<forall>b < h. status (deref p b) = COMPLETED \<or> status (deref p b) = FAILED"
    by (auto simp: fifo_inv_def)
  from seg Some have "[h..<length (objects p)] = a # queue p" by (simp add: slot_def)
  then have ah: "a = h" and hn: "h < length (objects p)" and q: "queue p = [Suc h..<length (objects p)]"
    by (auto simp: upt_eq_Cons_conv)
  have "fifo_inv ids pss p'"
    unfolding fifo_inv_def
  proof (intro conjI exI [of _ "Suc h"])
    show "\<not> isShuttingDown p'" using assms(1) by (simp add: eq fifo_inv_def)
    show "map id' (objects p') = ids" "map params (objects p') = pss"
      using assms(1) by (simp_all add: eq fifo_inv_def map_update_same deref_def)
    show "Suc h \<le> length (objects p')" using hn by (simp add: eq)
    show "history p' = drop (Suc h - nat (maxHistorySize p')) [0..<Suc h]"
      using drop_upt_snoc [of h "nat (maxHistorySize p)"] hist ah by (simp add: eq)
    show "slot (currentRun p') @ queue p' = [Suc h..<length (objects p')]"
      using q by (simp add: eq slot_def)
    show "\<forall>b < Suc h. status (deref p' b) = COMPLETED \<or> status (deref p' b) = FAILED"
      using fin ah hn status_settle [of out now "objects p ! h"]
      by (auto simp: eq deref_def nth_list_update less_Suc_eq)
  qed
  moreover have "\<forall>s. r \<noteq> RunId s" by (subst rep) (simp split: option.splits)
  ultimately show ?thesis by simp
qed

lemma fifo_catch_throws:
  assumes "fifo_inv ids pss p"
  shows "fifo_inv ids pss (fst (processNextTask_catch_throws p))"
proof (cases "currentRun p")
  case None
  then show ?thesis using assms by (simp add: processNextTask_catch_throws_def)
next
  case (Some a)
  let ?p' = "p\<lparr>objects := (objects p)[a := (objects p ! a)\<lparr>status := FAILED\<rparr>]\<rparr>"
  have eq: "fst (processNextTask_catch_throws p) = ?p'"
    using Some by (simp add: processNextTask_catch_throws_def deref_def)
  from assms obtain h where h: "h \<le> length (objects p)"
    and hist: "history p = drop (h - nat (maxHistorySize p)) [0..<h]"
    and seg: "slot (currentRun p) @ queue p = [h..<length (objects p)]"
    and fin: "\<forall>b < h. status (deref p b) = COMPLETED \<or> status (deref p b) = FAILED"
    by (auto simp: fifo_inv_def)
  from seg Some have "[h..<length (objects p)] = a # queue p" by (simp add: slot_def)
  then have ah: "a = h" by (auto simp: upt_eq_Cons_conv)
  show ?thesis
    unfolding eq fifo_inv_def
  proof (intro conjI exI [of _ h])
    show "\<not> isShuttingDown ?p'" using assms by (simp add: fifo_inv_def)
    show "map id' (objects ?p') = ids" "map params (objects ?p') = pss"
      using assms by (simp_all add: fifo_inv_def map_update_same)
    show "h \<le> length (objects ?p')" using h by simp
    show "history ?p' = drop (h - nat (maxHistorySize ?p')) [0..<h]" using hist by simp
    show "slot (currentRun ?p') @ queue ?p' = [h..<length (objects ?p')]" using seg by simp
    show "\<forall>b < h. status (deref ?p' b) = COMPLETED \<or> status (deref ?p' b) = FAILED"
      using fin ah by (auto simp: deref_def)
  qed
qed

lemma fifo_run:
  "wf_core p \<Longrightarrow> fifo_inv ids pss p \<Longrightarrow> list_all plain_event evs \<Longrightarrow>
   run evs p = Some (p', rs) \<Longrightarrow>
   fifo_inv (ids @ enqueued_ids rs) (pss @ enqueued_params evs) p'"
proof (induction evs arbitrary: p rs ids pss)
  case Nil
  then show ?case by simp
next
  case (Cons e evs)
  from Cons.prems(4) obtain p1 r rs1 where s: "step e p = Some (p1, r)"
    and r: "run evs p1 = Some (p', rs1)" and rs: "rs = r # rs1"
    by (auto split: option.splits)
  from Cons.prems(3) have pe: "plain_event e" and rest: "list_all plain_event evs" by simp_all
  have wf1: "wf_core p1" using wf_step [OF Cons.prems(1) plain_pool_event [OF pe] s] .
  have "fifo_inv (ids @ enqueued_ids [r]) (pss @ enqueued_params [e]) p1"
  proof (cases e)
    case (Enqueue ps ts tq now)
    with s fifo_enqueue [OF Cons.prems(1,2), of ps ts tq now] show ?thesis by auto
  next
    case (TaskSettles out now)
    with s fifo_resume [OF Cons.prems(2), of False out now p1 r] have "fifo_inv ids pss p1"
      and "\<forall>s. r \<noteq> RunId s" by auto
    then show ?thesis using TaskSettles by (cases r) auto
  next
    case (TaskSettlesCallbackThrows out now)
    with s fifo_resume [OF Cons.prems(2), of True out now p1 r] have "fifo_inv ids pss p1"
      and "\<forall>s. r \<noteq> RunId s" by auto
    then show ?thesis using TaskSettlesCallbackThrows by (cases r) auto
  next
    case TaskRejectsUnconvertible
    with s fifo_catch_throws [OF Cons.prems(2)] show ?thesis
      by (auto simp: processNextTask_catch_throws_def split: option.splits)
  next
    case (Immediate now)
    have core: "wf_core (p\<lparr>immediates := immediates p - 1\<rparr>)"
      using Cons.prems(1) by simp
    have "fifo_inv ids pss (p\<lparr>immediates := immediates p - 1\<rparr>)"
      using Cons.prems(2) by (simp add: fifo_inv_def deref_def)
    from fifo_processNextTask [OF core this, of now] Immediate s Cons.prems(2)
    show ?thesis by (auto split: if_splits)
  next
    case (SetOnProcessed cb)
    with s Cons.prems(2) show ?thesis by (auto simp: setOnProcessed_def fifo_inv_def deref_def)
  qed (use pe in simp_all)
  from Cons.IH [OF wf1 this rest r] rs show ?case
    by (cases r; cases e) simp_all
qed

lemma fifo_new: "fifo_inv [] [] (new_TaskPool opts)"
  by (simp add: fifo_inv_def new_TaskPool_def slot_def)

lemma fifo_reachable:
  assumes "run evs (new_TaskPool opts) = Some (p, rs)" "list_all plain_event evs"
  shows "fifo_inv (enqueued_ids rs) (enqueued_params evs) p"
  using fifo_run [OF wf_new fifo_new assms(2) assms(1)] by simp

lemma fifo_idle_history:
  assumes wf: "wf_core p" and fifo: "fifo_inv ids pss p" and idle: "queue p = []" "\<not> isProcessing p"
  shows "history p = drop (length (objects p) - nat (maxHistorySize p)) [0..<length (objects p)]"
proof -
  from fifo obtain h where h: "h \<le> length (objects p)"
    and hist: "history p = drop (h - nat (maxHistorySize p)) [0..<h]"
    and seg: "slot (currentRun p) @ queue p = [h..<length (objects p)]"
    by (auto simp: fifo_inv_def)
  from wf idle have "currentRun p = None" by (simp add: wf_core_def)
  with seg idle have "[h..<length (objects p)] = []" by (simp add: slot_def)
  with h have "h = length (objects p)" by auto
  with hist show ?thesis by simp
qed

lemma map_drop_upt: "map (\<lambda>a. f (xs ! a)) (drop k [0..<length xs]) = drop k (map f xs)"
proof -
  have "map (\<lambda>a. f (xs ! a)) (drop k [0..<length xs])
          = map f (map ((!) xs) (drop k [0..<length xs]))"
    by (simp only: map_map o_def)
  also have "\<dots> = map f (drop k (map ((!) xs) [0..<length xs]))"
    by (simp only: drop_map)
  also have "\<dots> = map f (drop k xs)" by (simp only: map_nth)
  finally show ?thesis by (simp only: drop_map)
qed

lemma idle_history_lists_enqueued:
  assumes "run evs (new_TaskPool opts) = Some (p, rs)" and "list_all plain_event evs"
  shows "queue p = [] \<and> \<not> isProcessing p \<longrightarrow>
           map (\<lambda>a. params (deref p a)) (history p)
             = drop (length (enqueued_params evs) - nat (maxHistorySize p)) (enqueued_params evs)
         \<and> map (\<lambda>a. id' (deref p a)) (history p)
             = drop (length (enqueued_ids rs) - nat (maxHistorySize p)) (enqueued_ids rs)"
proof
  assume idle: "queue p = [] \<and> \<not> isProcessing p"
  have wf: "wf_core p"
    using wf_reachable [OF _ assms(1)] assms(2) plain_pool_event
    by (auto simp: list_all_iff)
  note fifo = fifo_reachable [OF assms]
  have ids: "map id' (objects p) = enqueued_ids rs" and pss: "map params (objects p) = enqueued_params evs"
    using fifo by (simp_all add: fifo_inv_def)
  from idle have hist: "history p = drop (length (objects p) - nat (maxHistorySize p)) [0..<length (objects p)]"
    using fifo_idle_history [OF wf fifo] by simp
  have l1: "length (enqueued_ids rs) = length (objects p)" using arg_cong [OF ids, of length] by simp
  have l2: "length (enqueued_params evs) = length (objects p)" using arg_cong [OF pss, of length] by simp
  have a: "map (\<lambda>a. id' (deref p a)) (history p)
              = drop (length (enqueued_ids rs) - nat (maxHistorySize p)) (enqueued_ids rs)"
    unfolding l1 deref_def by (subst hist) (simp only: map_drop_upt ids)
  have b: "map (\<lambda>a. params (deref p a)) (history p)
              = drop (length (enqueued_params evs) - nat (maxHistorySize p)) (enqueued_params evs)"
    unfolding l2 deref_def by (subst hist) (simp only: map_drop_upt pss)
  from a b show "map (\<lambda>a. params (deref p a)) (history p)
             = drop (length (enqueued_params evs) - nat (maxHistorySize p)) (enqueued_params evs)
         \<and> map (\<lambda>a. id' (deref p a)) (history p)
             = drop (length (enqueued_ids rs) - nat (maxHistorySize p)) (enqueued_ids rs)" by simp
qed



lemma processNextTask_history [simp]:
  "history (processNextTask now p) = history p"
  "maxHistorySize (processNextTask now p) = maxHistorySize p"
  by (simp_all add: processNextTask_def split: list.splits)

lemma step_history_bound:
  assumes "step e p = Some (p', r)"
  shows "maxHistorySize p' = maxHistorySize p
       \<and> (length (history p) \<le> nat (maxHistorySize p) \<longrightarrow> length (history p') \<le> nat (maxHistorySize p))"
proof -
  have resume: ?thesis if res: "processNextTask_resume t out now p = Some (p', r)" for t out now
  proof (cases "currentRun p")
    case None
    then show ?thesis using res by (simp add: processNextTask_resume_def)
  next
    case (Some a)
    note eq = processNextTask_resume_Some(2) [OF res Some]
    have "maxHistorySize p' = maxHistorySize p" by (subst eq) simp
    moreover have "length (history p') \<le> nat (maxHistorySize p)"
      by (subst eq) simp
    ultimately show ?thesis by simp
  qed
  show ?thesis
  proof (cases e)
    case (Enqueue ps ts tq now)
    then show ?thesis using assms
      by (auto simp: enqueue_def generateRunId_def Let_def split: if_splits)
  next
    case (TaskSettles out now)
    with assms have "processNextTask_resume False out now p = Some (p', r)" by simp
    then show ?thesis by (rule resume)
  next
    case (Immediate now)
    then show ?thesis using assms by (auto split: if_splits)
  next
    case Cleanup
    then show ?thesis using assms by (auto simp: cleanup_def Let_def split: if_splits)
  next
    case CleanupPoll
    then show ?thesis using assms by (auto simp: cleanup_poll_def split: if_splits)
  next
    case ClearHistory
    then show ?thesis using assms by (auto simp: clearHistory_def)
  next
    case (SetOnProcessed cb)
    then show ?thesis using assms by (auto simp: setOnProcessed_def)
  next
    case (ExternalWrite a f)
    then show ?thesis using assms by (auto simp: external_write_def)
  next
    case (TaskSettlesCallbackThrows out now)
    with assms have "processNextTask_resume True out now p = Some (p', r)" by simp
    then show ?thesis by (rule resume)
  next
    case TaskRejectsUnconvertible
    then show ?thesis using assms
      by (auto simp: processNextTask_catch_throws_def split: option.splits)
  qed
qed

lemma run_history_bound:
  "run evs p = Some (p', rs) \<Longrightarrow> length (history p) \<le> nat (maxHistorySize p) \<Longrightarrow>
   maxHistorySize p' = maxHistorySize p \<and> length (history p') \<le> nat (maxHistorySize p)"
proof (induction evs arbitrary: p rs)
  case Nil
  then show ?case by simp
next
  case (Cons e evs)
  from Cons.prems(1) obtain p1 r rs1 where s: "step e p = Some (p1, r)"
    and r: "run evs p1 = Some (p', rs1)"
    by (auto split: option.splits)
  from step_history_bound [OF s] Cons.prems(2)
  have m: "maxHistorySize p1 = maxHistorySize p" and l: "length (history p1) \<le> nat (maxHistorySize p1)"
    by simp_all
  from Cons.IH [OF r l] m show ?case by simp
qed

lemma step_returns:
  assumes "0 \<le> maxHistorySize p"
  shows "\<exists>p' r. step e p = Some (p', r)"
proof -
  have resume: "\<exists>p' r. processNextTask_resume t out now p = Some (p', r)" for t out now
  proof (cases "currentRun p")
    case None
    then show ?thesis by (simp add: processNextTask_resume_def)
  next
    case (Some a)
    then show ?thesis using assms
      by (simp add: processNextTask_resume_def addToHistory_nonneg Let_def split: option.splits)
  qed
  show ?thesis
  proof (cases e)
    case (TaskSettles out now)
    then show ?thesis using resume [of False out now] by simp
  next
    case (TaskSettlesCallbackThrows out now)
    then show ?thesis using resume [of True out now] by simp
  qed simp_all
qed

lemma run_returns:
  "0 \<le> maxHistorySize p \<Longrightarrow> \<exists>p' rs. run evs p = Some (p', rs)"
proof (induction evs arbitrary: p)
  case Nil
  then show ?case by simp
next
  case (Cons e evs)
  from step_returns [OF Cons.prems, of e] obtain p1 r where s: "step e p = Some (p1, r)" by blast
  from step_history_bound [OF s] Cons.prems have "0 \<le> maxHistorySize p1" by simp
  from Cons.IH [OF this] obtain p' rs where "run evs p1 = Some (p', rs)" by blast
  with s show ?case by simp
qed

text \<open>
  Claim C3. For a bound \<open>M\<close> that is not negative every trace of events runs through
  (no step hangs). For such a bound, and for the default bound of 100, the history never
  holds more than the bound, whatever happens to the pool. \<open>addToHistory\<close>
  appends the run and drops entries from the front, the oldest first. With \<open>M = 3\<close> and
  five runs enqueued with inputs 1 to 5, in every interleaving of calls and completions
  the drained pool has a history of length 3 holding the runs for inputs 3, 4 and 5.
\<close>

theorem history_never_exceeds_maxHistorySize:
  assumes "0 \<le> M"
  shows "(\<forall>evs. \<exists>(p :: ('p, 'r) TaskPool) rs. run evs (new_TaskPool (Some M)) = Some (p, rs))
       \<and> (\<forall>evs (p :: ('p, 'r) TaskPool) rs.
            run evs (new_TaskPool (Some M)) = Some (p, rs) \<longrightarrow> length (history p) \<le> nat M)
       \<and> (\<forall>evs (p :: ('p, 'r) TaskPool) rs.
            run evs (new_TaskPool None) = Some (p, rs) \<longrightarrow> length (history p) \<le> 100)
       \<and> (\<forall>a (p :: ('p, 'r) TaskPool). maxHistorySize p = M \<longrightarrow>
            addToHistory a p =
              Some (p\<lparr>history := drop (Suc (length (history p)) - nat M) (history p @ [a])\<rparr>))
       \<and> (\<forall>evs (p :: (int, 'r) TaskPool) rs.
            run evs (new_TaskPool (Some 3)) = Some (p, rs) \<and> list_all plain_event evs
            \<and> enqueued_params evs = [1, 2, 3, 4, 5] \<and> queue p = [] \<and> \<not> isProcessing p \<longrightarrow>
            length (getHistory p None) = 3
            \<and> map (\<lambda>a. params (deref p a)) (getHistory p None) = [5, 4, 3])"
proof (intro conjI allI impI)
  fix evs :: "('p, 'r) event list"
  show "\<exists>(p :: ('p, 'r) TaskPool) rs. run evs (new_TaskPool (Some M)) = Some (p, rs)"
    by (rule run_returns) (use assms in \<open>simp add: new_TaskPool_def\<close>)
next
  fix evs rs and p :: "('p, 'r) TaskPool"
  assume "run evs (new_TaskPool (Some M)) = Some (p, rs)"
  from run_history_bound [OF this] show "length (history p) \<le> nat M"
    by (simp add: new_TaskPool_def)
next
  fix evs rs and p :: "('p, 'r) TaskPool"
  assume "run evs (new_TaskPool None) = Some (p, rs)"
  from run_history_bound [OF this] show "length (history p) \<le> 100"
    by (simp add: new_TaskPool_def)
next
  fix a and p :: "('p, 'r) TaskPool"
  assume "maxHistorySize p = M"
  with assms show "addToHistory a p =
              Some (p\<lparr>history := drop (Suc (length (history p)) - nat M) (history p @ [a])\<rparr>)"
    using addToHistory_nonneg [of p a] by simp
next
  fix evs rs and p :: "(int, 'r) TaskPool"
  assume a: "run evs (new_TaskPool (Some 3)) = Some (p, rs) \<and> list_all plain_event evs
            \<and> enqueued_params evs = [1, 2, 3, 4, 5] \<and> queue p = [] \<and> \<not> isProcessing p"
  then have r: "run evs (new_TaskPool (Some 3)) = Some (p, rs)" and ev: "list_all plain_event evs"
    and ps: "enqueued_params evs = [1, 2, 3, 4, 5]" and idle: "queue p = [] \<and> \<not> isProcessing p"
    by simp_all
  have m: "maxHistorySize p = 3"
    using run_history_bound [OF r] by (simp add: new_TaskPool_def)
  from idle_history_lists_enqueued [OF r ev] idle
  have "map (\<lambda>a. params (deref p a)) (history p)
          = drop (length (enqueued_params evs) - nat (maxHistorySize p)) (enqueued_params evs)"
    by simp
  then have h: "map (\<lambda>a. params (deref p a)) (history p) = [3, 4, 5]"
    unfolding ps m by simp
  have "map (\<lambda>a. params (deref p a)) (getHistory p None) = rev (map (\<lambda>a. params (deref p a)) (history p))"
    by (simp add: getHistory_def rev_map)
  then show "map (\<lambda>a. params (deref p a)) (getHistory p None) = [5, 4, 3]"
    unfolding h by simp
  from arg_cong [OF h, of length] show "length (getHistory p None) = 3"
    by (simp add: getHistory_def)
qed

theorem history_never_exceeds_maxHistorySize_witness:
  "(0::int) \<le> 3
   \<and> (\<exists>p rs. run five_tasks (new_TaskPool (Some 3)) = Some (p, rs)
         \<and> list_all plain_event five_tasks
         \<and> enqueued_params five_tasks = [1, 2, 3, 4, 5]
         \<and> queue p = [] \<and> \<not> isProcessing p
         \<and> length (history p) \<le> nat 3
         \<and> length (getHistory p None) = 3
         \<and> map (\<lambda>a. params (deref p a)) (getHistory p None) = [5, 4, 3]
         \<and> map (\<lambda>a. result (deref p a)) (getHistory p None) = [Some 10, Some 8, Some 6])"
proof -
  have z: "(0::int) \<le> 3" by simp
  have "\<exists>p rs. run five_tasks (new_TaskPool (Some 3)) = Some (p, rs)
         \<and> queue p = [] \<and> \<not> isProcessing p
         \<and> map (\<lambda>a. result (deref p a)) (getHistory p None) = [Some 10, Some 8, Some 6]"
    by (simp add: five_tasks_def eval_defs getHistory_def)
  then obtain p rs where r: "run five_tasks (new_TaskPool (Some 3)) = Some (p, rs)"
    and q: "queue p = []" and i: "\<not> isProcessing p"
    and res: "map (\<lambda>a. result (deref p a)) (getHistory p None) = [Some 10, Some 8, Some 6]"
    by (elim exE conjE)
  have ev: "list_all plain_event five_tasks" by (simp add: five_tasks_def)
  have ps: "enqueued_params five_tasks = [1, 2, 3, 4, 5]" by (simp add: five_tasks_def)
  note t = history_never_exceeds_maxHistorySize [OF z]
  from t r have b: "length (history p) \<le> nat 3" by blast
  from t r ev ps q i have "length (getHistory p None) = 3
     \<and> map (\<lambda>a. params (deref p a)) (getHistory p None) = [5, 4, 3]" by blast
  then have l: "length (getHistory p None) = 3"
    and c: "map (\<lambda>a. params (deref p a)) (getHistory p None) = [5, 4, 3]" by simp_all
  show ?thesis
    by (intro exI [of _ p] exI [of _ rs] conjI) (rule z r ev ps q i b l c res)+
qed

section \<open>Shutdown\<close>

lemma processNextTask_flags [simp]:
  "isShuttingDown (processNextTask now p) = isShuttingDown p"
  "sleepers (processNextTask now p) = sleepers p"
  by (simp_all add: processNextTask_def split: list.splits)

lemma processNextTask_shutting: "isShuttingDown p \<Longrightarrow> processNextTask now p = p"
  by (simp add: processNextTask_def)

lemma step_sleepers_ok:
  assumes "step e p = Some (p', r)" "sleepers_ok p"
  shows "sleepers_ok p'"
proof -
  have resume: ?thesis if res: "processNextTask_resume t out now p = Some (p', r)" for t out now
  proof (cases "currentRun p")
    case None
    then show ?thesis using assms(2) res by (simp add: processNextTask_resume_def)
  next
    case (Some a)
    show ?thesis using assms(2)
      by (subst processNextTask_resume_Some(2) [OF res Some]) (simp add: sleepers_ok_def)
  qed
  show ?thesis
  proof (cases e)
    case (TaskSettles out now)
    with assms have "processNextTask_resume False out now p = Some (p', r)" by simp
    then show ?thesis by (rule resume)
  next
    case (TaskSettlesCallbackThrows out now)
    with assms have "processNextTask_resume True out now p = Some (p', r)" by simp
    then show ?thesis by (rule resume)
  qed (use assms in \<open>auto simp: sleepers_ok_def enqueue_def generateRunId_def Let_def cleanup_def
         cleanup_poll_def clearHistory_def setOnProcessed_def external_write_def
         processNextTask_catch_throws_def split: if_splits option.splits\<close>)
qed

lemma run_sleepers_ok:
  "run evs p = Some (p', rs) \<Longrightarrow> sleepers_ok p \<Longrightarrow> sleepers_ok p'"
proof (induction evs arbitrary: p rs)
  case Nil
  then show ?case by simp
next
  case (Cons e evs)
  from Cons.prems(1) obtain p1 r rs1 where s: "step e p = Some (p1, r)"
    and r: "run evs p1 = Some (p', rs1)"
    by (auto split: option.splits)
  from Cons.IH [OF r step_sleepers_ok [OF s Cons.prems(2)]] show ?case .
qed

lemma resolved_shut:
  assumes "step e p = Some (q, Resolved)" "sleepers_ok p"
  shows "shut q"
proof -
  have resume: ?thesis if res: "processNextTask_resume t out now p = Some (q, Resolved)" for t out now
  proof (cases "currentRun p")
    case None
    then show ?thesis using res by (simp add: processNextTask_resume_def)
  next
    case (Some a)
    from processNextTask_resume_Some(3) [OF res Some] show ?thesis by (simp split: option.splits)
  qed
  show ?thesis
  proof (cases e)
    case (TaskSettles out now)
    with assms have "processNextTask_resume False out now p = Some (q, Resolved)" by simp
    then show ?thesis by (rule resume)
  next
    case (TaskSettlesCallbackThrows out now)
    with assms have "processNextTask_resume True out now p = Some (q, Resolved)" by simp
    then show ?thesis by (rule resume)
  qed (use assms in \<open>auto simp: shut_def sleepers_ok_def enqueue_def generateRunId_def Let_def cleanup_def
         cleanup_poll_def clearHistory_def setOnProcessed_def external_write_def
         processNextTask_catch_throws_def split: if_splits option.splits\<close>)
qed

lemma step_shut:
  assumes "step e p = Some (p', r)" "shut p"
  shows "shut p'"
proof -
  have resume: ?thesis if res: "processNextTask_resume t out now p = Some (p', r)" for t out now
  proof (cases "currentRun p")
    case None
    then show ?thesis using assms(2) res by (simp add: processNextTask_resume_def)
  next
    case (Some a)
    show ?thesis using assms(2)
      by (subst processNextTask_resume_Some(2) [OF res Some]) (simp add: shut_def)
  qed
  show ?thesis
  proof (cases e)
    case (TaskSettles out now)
    with assms have "processNextTask_resume False out now p = Some (p', r)" by simp
    then show ?thesis by (rule resume)
  next
    case (TaskSettlesCallbackThrows out now)
    with assms have "processNextTask_resume True out now p = Some (p', r)" by simp
    then show ?thesis by (rule resume)
  next
    case (Immediate now)
    then show ?thesis using assms by (auto simp: shut_def processNextTask_shutting split: if_splits)
  qed (use assms in \<open>auto simp: shut_def enqueue_def generateRunId_def Let_def cleanup_def
         cleanup_poll_def clearHistory_def setOnProcessed_def external_write_def
         processNextTask_catch_throws_def split: if_splits option.splits\<close>)
qed

lemma run_shut:
  "run evs p = Some (p', rs) \<Longrightarrow> shut p \<Longrightarrow> shut p'"
proof (induction evs arbitrary: p rs)
  case Nil
  then show ?case by simp
next
  case (Cons e evs)
  from Cons.prems(1) obtain p1 r rs1 where s: "step e p = Some (p1, r)"
    and r: "run evs p1 = Some (p', rs1)"
    by (auto split: option.splits)
  from Cons.IH [OF r step_shut [OF s Cons.prems(2)]] show ?case .
qed

lemma step_discarded:
  assumes "step e p = Some (p', r)" "discarded Q p" "pool_event e"
  shows "discarded Q p'"
proof -
  have resume: ?thesis if res: "processNextTask_resume t out now p = Some (p', r)" for t out now
  proof (cases "currentRun p")
    case None
    then show ?thesis using assms(2) res by (simp add: processNextTask_resume_def)
  next
    case (Some c)
    note eq = processNextTask_resume_Some(2) [OF res Some]
    have c: "c \<notin> Q" using assms(2) Some by (auto simp: discarded_def)
    have sub: "set (history p') \<subseteq> set (history p) \<union> {c}"
      using set_drop_subset [of "Suc (length (history p)) - nat (maxHistorySize p)" "history p @ [c]"]
      by (subst eq) auto
    show ?thesis
      unfolding discarded_def
    proof (intro conjI ballI)
      show "isShuttingDown p'" using assms(2) by (subst eq) (simp add: discarded_def)
      fix a assume a: "a \<in> Q"
      with c have ne: "a \<noteq> c" by auto
      show "status (deref p' a) = PENDING"
        using assms(2) a ne by (subst eq) (simp add: discarded_def deref_def)
      show "a \<notin> set (history p')" using assms(2) a ne sub by (auto simp: discarded_def)
      show "currentRun p' \<noteq> Some a" by (subst eq) simp
    qed
  qed
  show ?thesis
  proof (cases e)
    case (TaskSettles out now)
    with assms have "processNextTask_resume False out now p = Some (p', r)" by simp
    then show ?thesis by (rule resume)
  next
    case (TaskSettlesCallbackThrows out now)
    with assms have "processNextTask_resume True out now p = Some (p', r)" by simp
    then show ?thesis by (rule resume)
  next
    case TaskRejectsUnconvertible
    show ?thesis
    proof (cases "currentRun p")
      case None
      then show ?thesis using assms TaskRejectsUnconvertible
        by (simp add: processNextTask_catch_throws_def)
    next
      case (Some c)
      have c: "c \<notin> Q" using assms(2) Some by (auto simp: discarded_def)
      have eq: "p' = p\<lparr>objects := (objects p)[c := (deref p c)\<lparr>status := FAILED\<rparr>]\<rparr>"
        using assms(1) TaskRejectsUnconvertible Some by (simp add: processNextTask_catch_throws_def)
      show ?thesis
        unfolding discarded_def
      proof (intro conjI ballI)
        show "isShuttingDown p'" using assms(2) by (subst eq) (simp add: discarded_def)
        fix a assume a: "a \<in> Q"
        with c have ne: "a \<noteq> c" by auto
        show "status (deref p' a) = PENDING"
          using assms(2) a ne by (subst eq) (simp add: discarded_def deref_def)
        show "a \<notin> set (history p')" using assms(2) a by (subst eq) (simp add: discarded_def)
        show "currentRun p' \<noteq> Some a" using assms(2) a by (subst eq) (simp add: discarded_def)
      qed
    qed
  next
    case (Immediate now)
    then show ?thesis using assms
      by (auto simp: discarded_def processNextTask_shutting deref_def split: if_splits)
  next
    case (ExternalWrite a f)
    then show ?thesis using assms by simp
  qed (use assms in \<open>auto simp: discarded_def deref_def enqueue_def generateRunId_def Let_def cleanup_def
         cleanup_poll_def clearHistory_def setOnProcessed_def split: if_splits\<close>)
qed

lemma run_discarded:
  "run evs p = Some (p', rs) \<Longrightarrow> discarded Q p \<Longrightarrow> list_all pool_event evs \<Longrightarrow> discarded Q p'"
proof (induction evs arbitrary: p rs)
  case Nil
  then show ?case by simp
next
  case (Cons e evs)
  from Cons.prems(1) obtain p1 r rs1 where s: "step e p = Some (p1, r)"
    and r: "run evs p1 = Some (p', rs1)"
    by (auto split: option.splits)
  from Cons.prems(3) have "pool_event e" "list_all pool_event evs" by simp_all
  from Cons.IH [OF r step_discarded [OF s Cons.prems(2) this(1)] this(2)] show ?case .
qed

lemma cleanup_discards:
  assumes "wf_core p"
  shows "discarded (set (queue p)) (fst (cleanup p))"
proof -
  note core = assms
  have srt: "sorted_wrt (<) (history p @ slot (currentRun p) @ queue p)"
    and bnd: "\<forall>a \<in> set (queue p). a < length (objects p)"
    using core by (auto simp: wf_core_def held_def)
  have "status (deref p a) = PENDING \<and> a \<notin> set (history p) \<and> currentRun p \<noteq> Some a"
    if "a \<in> set (queue p)" for a
  proof -
    from that bnd core have "status (deref p a) = PENDING" by (auto simp: wf_core_def)
    moreover from that srt have "a \<notin> set (history p)" by (auto simp: sorted_wrt_append)
    moreover from that srt have "currentRun p \<noteq> Some a" by (auto simp: sorted_wrt_append slot_def)
    ultimately show ?thesis by simp
  qed
  then show ?thesis by (auto simp: discarded_def cleanup_def Let_def deref_def)
qed

lemma sleepers_ok_new: "sleepers_ok (new_TaskPool opts)"
  by (simp add: sleepers_ok_def new_TaskPool_def)

lemma shut_closed:
  assumes "shut q"
  shows "getQueueSize q = 0" "\<not> isRunning_pool q"
    "step (Enqueue ps ts tq now) q = Some (q, Threw ''Task pool is shutting down, cannot enqueue new tasks'')"
    "step Cleanup q = Some (q, Resolved)"
  using assms by (simp_all add: shut_def getQueueSize_def isRunning_pool_def enqueue_def cleanup_def Let_def)

text \<open>
  Claim C4. Let \<open>p\<close> be a state a new pool has reached. If a \<^verbatim>\<open>cleanup\<close> call resolves in
  \<open>p\<close> (at once, or at a wake-up of its polling loop), then after anything that happens
  later the queue is empty, no run is executing, every \<^verbatim>\<open>enqueue\<close> is rejected with the
  shutdown error and leaves the pool as it is, and a further \<^verbatim>\<open>cleanup\<close> resolves at once
  and changes nothing. A \<^verbatim>\<open>cleanup\<close> call on an idle pool resolves at once. And if
  \<^verbatim>\<open>cleanup\<close> is called in \<open>p\<close>, the runs queued in \<open>p\<close> are never started: whatever the
  pool's code does later, they stay pending, never become the current run and never enter
  the history.
\<close>

theorem after_cleanup_resolves:
  fixes p :: "('p, 'r) TaskPool"
  assumes "run evs0 (new_TaskPool opts) = Some (p, rs0)"
  shows "(\<forall>e q evs q' rs. step e p = Some (q, Resolved) \<and> run evs q = Some (q', rs) \<longrightarrow>
            getQueueSize q' = 0 \<and> \<not> isRunning_pool q'
          \<and> (\<forall>ps ts tq now. step (Enqueue ps ts tq now) q' =
                Some (q', Threw ''Task pool is shutting down, cannot enqueue new tasks''))
          \<and> step Cleanup q' = Some (q', Resolved))
       \<and> (\<not> isProcessing p \<longrightarrow> snd (cleanup p) = Resolved)
       \<and> (list_all pool_event evs0 \<longrightarrow>
            (\<forall>evs1 p1 rs1. list_all pool_event evs1 \<and> run (Cleanup # evs1) p = Some (p1, rs1) \<longrightarrow>
               (\<forall>a \<in> set (queue p).
                  status (deref p1 a) = PENDING \<and> a \<notin> set (history p1) \<and> currentRun p1 \<noteq> Some a)))"
proof (intro conjI allI impI)
  fix e evs rs and q q' :: "('p, 'r) TaskPool"
  assume a: "step e p = Some (q, Resolved) \<and> run evs q = Some (q', rs)"
  have "sleepers_ok p" using run_sleepers_ok [OF assms sleepers_ok_new] .
  with a have "shut q" using resolved_shut by blast
  with a have s: "shut q'" using run_shut by blast
  show "getQueueSize q' = 0" "\<not> isRunning_pool q'" "step Cleanup q' = Some (q', Resolved)"
    using shut_closed [OF s] by simp_all
  show "step (Enqueue ps ts tq now) q' =
          Some (q', Threw ''Task pool is shutting down, cannot enqueue new tasks'')" for ps ts tq now
    using shut_closed(3) [OF s] .
next
  assume "\<not> isProcessing p"
  then show "snd (cleanup p) = Resolved" by (simp add: cleanup_def Let_def)
next
  fix evs1 rs1 and p1 :: "('p, 'r) TaskPool"
  assume ev0: "list_all pool_event evs0"
    and a: "list_all pool_event evs1 \<and> run (Cleanup # evs1) p = Some (p1, rs1)"
  have wf: "wf_core p" using wf_reachable [OF ev0 assms] .
  from a obtain rs' where r: "run evs1 (fst (cleanup p)) = Some (p1, rs')"
    by (auto split: option.splits prod.splits)
  from run_discarded [OF r cleanup_discards [OF wf]] a
  have "discarded (set (queue p)) p1" by simp
  then show "\<forall>a \<in> set (queue p).
                  status (deref p1 a) = PENDING \<and> a \<notin> set (history p1) \<and> currentRun p1 \<noteq> Some a"
    by (simp add: discarded_def)
qed

theorem after_cleanup_resolves_witness:
  "\<exists>p rs0 q q' rs p1 rs1.
     run shutdown_trace (new_TaskPool None) = Some (p, rs0)
     \<and> list_all pool_event shutdown_trace
     \<and> queue p = [1]
     \<and> step CleanupPoll p = Some (q, Resolved)
     \<and> run [Enqueue 3 2000 2000 2000, Immediate 2000, Cleanup] q = Some (q', rs)
     \<and> list_all pool_event [CleanupPoll, Immediate 2000]
     \<and> run (Cleanup # [CleanupPoll, Immediate 2000]) p = Some (p1, rs1)
     \<and> getQueueSize q' = 0 \<and> \<not> isRunning_pool q'
     \<and> step (Enqueue 4 3000 3000 3000) q' =
           Some (q', Threw ''Task pool is shutting down, cannot enqueue new tasks'')
     \<and> step Cleanup q' = Some (q', Resolved)
     \<and> status (deref p1 1) = PENDING \<and> 1 \<notin> set (history p1) \<and> currentRun p1 \<noteq> Some 1
     \<and> \<not> isProcessing p \<and> snd (cleanup p) = Resolved"
proof -
  have "\<exists>p rs0 q q' rs p1 rs1.
     run shutdown_trace (new_TaskPool None) = Some (p, rs0)
     \<and> queue p = [1]
     \<and> step CleanupPoll p = Some (q, Resolved)
     \<and> run [Enqueue 3 2000 2000 2000, Immediate 2000, Cleanup] q = Some (q', rs)
     \<and> run (Cleanup # [CleanupPoll, Immediate 2000]) p = Some (p1, rs1)
     \<and> \<not> isProcessing p"
    by (simp add: shutdown_trace_def eval_defs)
  then obtain p rs0 q q' rs p1 rs1 where
    r0: "run shutdown_trace (new_TaskPool None) = Some (p, rs0)"
    and ip: "\<not> isProcessing p"
    and qp: "queue p = [1]"
    and e: "step CleanupPoll p = Some (q, Resolved)"
    and r: "run [Enqueue 3 2000 2000 2000, Immediate 2000, Cleanup] q = Some (q', rs)"
    and r1: "run (Cleanup # [CleanupPoll, Immediate 2000]) p = Some (p1, rs1)"
    by (elim exE conjE)
  have ev0: "list_all pool_event shutdown_trace" by (simp add: shutdown_trace_def)
  have ev1: "list_all pool_event [CleanupPoll, Immediate 2000]" by simp
  note t = after_cleanup_resolves [OF r0]
  from t e r have a: "getQueueSize q' = 0 \<and> \<not> isRunning_pool q'
          \<and> (\<forall>ps ts tq now. step (Enqueue ps ts tq now) q' =
                Some (q', Threw ''Task pool is shutting down, cannot enqueue new tasks''))
          \<and> step Cleanup q' = Some (q', Resolved)" by blast
  then have a1: "getQueueSize q' = 0" and a2: "\<not> isRunning_pool q'"
    and a3: "step (Enqueue 4 3000 3000 3000) q' =
           Some (q', Threw ''Task pool is shutting down, cannot enqueue new tasks'')"
    and a4: "step Cleanup q' = Some (q', Resolved)" by simp_all
  from t ev0 ev1 r1 have "\<forall>a \<in> set (queue p).
       status (deref p1 a) = PENDING \<and> a \<notin> set (history p1) \<and> currentRun p1 \<noteq> Some a" by blast
  with qp have c1: "status (deref p1 1) = PENDING" and c2: "1 \<notin> set (history p1)"
    and c3: "currentRun p1 \<noteq> Some 1" by simp_all
  from t ip have c4: "snd (cleanup p) = Resolved" by blast
  show ?thesis
    by (intro exI [of _ p] exI [of _ rs0] exI [of _ q] exI [of _ q'] exI [of _ rs]
          exI [of _ p1] exI [of _ rs1] conjI)
       (rule r0 ev0 qp e r ev1 r1 a1 a2 a3 a4 c1 c2 c3 ip c4)+
qed

section \<open>Failure of a run\<close>

lemma run_append:
  "run (xs @ ys) p =
     (case run xs p of
        None \<Rightarrow> None
      | Some (p1, rs1) \<Rightarrow>
          (case run ys p1 of None \<Rightarrow> None | Some (p2, rs2) \<Rightarrow> Some (p2, rs1 @ rs2)))"
  by (induction xs arbitrary: p) (auto split: option.splits)

lemma run_Cons_Some:
  "step e p = Some (p1, r) \<Longrightarrow> run es p1 = Some (p2, rs) \<Longrightarrow> run (e # es) p = Some (p2, r # rs)"
  by simp

lemma processNextTask_resume_nonneg:
  assumes "0 \<le> maxHistorySize p" "currentRun p = Some a"
  shows "processNextTask_resume False out now p =
     Some (p\<lparr> objects := (objects p)[a := settle out now (deref p a)],
               history := drop (Suc (length (history p)) - nat (maxHistorySize p)) (history p @ [a]),
               currentRun := None, isProcessing := False,
               immediates := (if queue p \<noteq> [] \<and> \<not> isShuttingDown p
                              then immediates p + 1 else immediates p) \<rparr>,
           case onProcessed p of None \<Rightarrow> Done | Some cb \<Rightarrow> Called cb a)"
  using assms
  by (auto simp: processNextTask_resume_def addToHistory_nonneg Let_def split: option.splits)

lemma processNextTask_keeps:
  "map id' (objects (processNextTask now p)) = map id' (objects p)"
  "map params (objects (processNextTask now p)) = map params (objects p)"
  by (auto simp: processNextTask_def map_update_same deref_def split: list.splits)

text \<open>
  When the thrown value can be normalised and the callback returns, a failure is contained.
  Serving the queue of a pool that is not shutting down leaves the last queued run
  executing.
\<close>

lemma drain:
  assumes "wf_core p" "\<not> isShuttingDown p" "0 \<le> maxHistorySize p" "currentRun p = Some c"
    "length os = length (queue p)"
  shows "\<exists>p' rs. run (serve os) p = Some (p', rs)
           \<and> wf_core p' \<and> \<not> isShuttingDown p' \<and> maxHistorySize p' = maxHistorySize p
           \<and> currentRun p' = Some (last (c # queue p)) \<and> queue p' = []
           \<and> map id' (objects p') = map id' (objects p)
           \<and> map params (objects p') = map params (objects p)"
  using assms
proof (induction os arbitrary: p c)
  case Nil
  then show ?case by simp
next
  case (Cons x os)
  obtain out t t' where x: "x = (out, t, t')" by (cases x) auto
  from Cons.prems(5) obtain a rest where q: "queue p = a # rest" and len: "length os = length rest"
    by (cases "queue p") auto
  let ?p1 = "p\<lparr> objects := (objects p)[c := settle out t (deref p c)],
               history := drop (Suc (length (history p)) - nat (maxHistorySize p)) (history p @ [c]),
               currentRun := None, isProcessing := False,
               immediates := immediates p + 1 \<rparr>"
  have s1: "step (TaskSettles out t) p =
              Some (?p1, case onProcessed p of None \<Rightarrow> Done | Some cb \<Rightarrow> Called cb c)"
    using processNextTask_resume_nonneg [OF Cons.prems(3,4), of out t] q Cons.prems(2) by simp
  have wf1: "wf_core ?p1" using wf_step [OF Cons.prems(1) _ s1] by simp
  let ?p2 = "processNextTask t' (?p1\<lparr>immediates := immediates ?p1 - 1\<rparr>)"
  have s2: "step (Immediate t') ?p1 = Some (?p2, Done)" by simp
  have wf2: "wf_core ?p2" using wf_step [OF wf1 _ s2] by simp
  have p2: "\<not> isShuttingDown ?p2" "maxHistorySize ?p2 = maxHistorySize p" "currentRun ?p2 = Some a"
    "queue ?p2 = rest"
    using Cons.prems(2) q by (simp_all add: processNextTask_def)
  have "map id' (objects ?p1) = map id' (objects p)" "map params (objects ?p1) = map params (objects p)"
    by (simp_all add: map_update_same deref_def)
  then have keep: "map id' (objects ?p2) = map id' (objects p)"
    "map params (objects ?p2) = map params (objects p)"
    by (simp_all add: processNextTask_keeps)
  from Cons.IH [OF wf2 p2(1) _ p2(3)] Cons.prems(3) p2(2,4) len
  obtain p' rs where r: "run (serve os) ?p2 = Some (p', rs)"
    and c: "wf_core p'" "\<not> isShuttingDown p'" "maxHistorySize p' = maxHistorySize ?p2"
      "currentRun p' = Some (last (a # queue ?p2))" "queue p' = []"
      "map id' (objects p') = map id' (objects ?p2)"
      "map params (objects p') = map params (objects ?p2)"
    by auto
  have "run (serve (x # os)) p =
          Some (p', (case onProcessed p of None \<Rightarrow> Done | Some cb \<Rightarrow> Called cb c) # Done # rs)"
    unfolding x serve.simps by (rule run_Cons_Some [OF s1 run_Cons_Some [OF s2 r]])
  moreover have "currentRun p' = Some (last (c # queue p))"
    using c(4) p2(4) q by simp
  ultimately show ?case using c p2 keep by simp
qed

lemma enqueue_idle:
  assumes "\<not> isShuttingDown p" "\<not> isProcessing p"
  shows "\<exists>p2 s c. enqueue ps ts tq now p = (p2, RunId s)
           \<and> currentRun p2 = Some c \<and> last (c # queue p2) = length (objects p)
           \<and> length (queue p2) = length (queue p)
           \<and> \<not> isShuttingDown p2 \<and> maxHistorySize p2 = maxHistorySize p
           \<and> map id' (objects p2) = map id' (objects p) @ [s]
           \<and> map params (objects p2) = map params (objects p) @ [ps]"
proof (cases "queue p")
  case Nil
  then show ?thesis using assms
    by (simp add: enqueue_def generateRunId_def processNextTask_def Let_def deref_def
        map_update_same)
next
  case (Cons b rest)
  then show ?thesis using assms
    by (simp add: enqueue_def generateRunId_def processNextTask_def Let_def deref_def
        map_update_same)
qed

lemma settle_Rejected:
  "status (settle (Rejected v) now r) = FAILED"
  "error (settle (Rejected v) now r) = Some (normalize_error v)"
  "result (settle (Rejected v) now r) = result r"
  "completedAt (settle (Rejected v) now r) = Some now"
  by (simp_all add: settle_def)

lemma settle_Fulfilled:
  "status (settle (Fulfilled res) now r) = COMPLETED"
  "result (settle (Fulfilled res) now r) = Some res"
  "error (settle (Fulfilled res) now r) = error r"
  by (simp_all add: settle_def)

lemma wf_current:
  assumes "wf_core p" "currentRun p = Some a"
  shows "a < length (objects p)" "result (deref p a) = None" "error (deref p a) = None"
proof -
  show a: "a < length (objects p)" using wf_core_held(3) [OF assms(1)] assms(2) by simp
  have "status (deref p a) = RUNNING \<and> run_ok (deref p a) \<or> catch_threw (deref p a)"
    using assms a by (simp add: wf_core_def)
  then show "result (deref p a) = None" "error (deref p a) = None"
    by (auto simp: run_ok_def catch_threw_def)
qed

lemma enqueue_then_drain:
  fixes p1 :: "('p, 'r) TaskPool"
  assumes wf1: "wf_core p1" and ns: "\<not> isShuttingDown p1" and idle: "\<not> isProcessing p1"
    and M: "0 \<le> maxHistorySize p1" and len: "length os = length (queue p1)"
  shows "\<exists>p' rs s.
           run (Enqueue ps ts tq t2 # serve os @ [TaskSettles (Fulfilled res) t3]) p1
             = Some (p', RunId s # rs)
         \<and> id' (deref p' (length (objects p1))) = s
         \<and> params (deref p' (length (objects p1))) = ps
         \<and> status (deref p' (length (objects p1))) = COMPLETED
         \<and> result (deref p' (length (objects p1))) = Some res
         \<and> error (deref p' (length (objects p1))) = None
         \<and> \<not> isProcessing p'"
proof -
  let ?n = "length (objects p1)"
  from enqueue_idle [OF ns idle, of ps ts tq t2]
  obtain p2 s c where e: "enqueue ps ts tq t2 p1 = (p2, RunId s)"
    and c: "currentRun p2 = Some c" and l: "last (c # queue p2) = ?n"
    and q: "length (queue p2) = length (queue p1)"
    and ns2: "\<not> isShuttingDown p2" and M2: "maxHistorySize p2 = maxHistorySize p1"
    and i2: "map id' (objects p2) = map id' (objects p1) @ [s]"
    and ps2: "map params (objects p2) = map params (objects p1) @ [ps]"
    by blast
  have s1: "step (Enqueue ps ts tq t2) p1 = Some (p2, RunId s)" using e by simp
  have wf2: "wf_core p2" using wf_enqueue [OF wf1, of ps ts tq t2] e by simp
  from drain [OF wf2 ns2 _ c, of os] M M2 len q l
  obtain p3 rs3 where r3: "run (serve os) p2 = Some (p3, rs3)"
    and wf3: "wf_core p3" and M3: "maxHistorySize p3 = maxHistorySize p2"
    and c3: "currentRun p3 = Some ?n"
    and i3: "map id' (objects p3) = map id' (objects p2)"
    and ps3: "map params (objects p3) = map params (objects p2)"
    by auto
  note cur = wf_current [OF wf3 c3]
  let ?p4 = "p3\<lparr> objects := (objects p3)[?n := settle (Fulfilled res) t3 (deref p3 ?n)],
               history := drop (Suc (length (history p3)) - nat (maxHistorySize p3)) (history p3 @ [?n]),
               currentRun := None, isProcessing := False,
               immediates := (if queue p3 \<noteq> [] \<and> \<not> isShuttingDown p3
                              then immediates p3 + 1 else immediates p3) \<rparr>"
  let ?r4 = "case onProcessed p3 of None \<Rightarrow> Done | Some cb \<Rightarrow> Called cb ?n"
  have s4: "step (TaskSettles (Fulfilled res) t3) p3 = Some (?p4, ?r4)"
    using processNextTask_resume_nonneg [OF _ c3, of "Fulfilled res" t3] M M2 M3 by simp
  have "run [TaskSettles (Fulfilled res) t3] p3 = Some (?p4, [?r4])"
    using s4 by simp
  with r3 have "run (serve os @ [TaskSettles (Fulfilled res) t3]) p2 = Some (?p4, rs3 @ [?r4])"
    by (simp add: run_append)
  then have r: "run (Enqueue ps ts tq t2 # serve os @ [TaskSettles (Fulfilled res) t3]) p1
                  = Some (?p4, RunId s # rs3 @ [?r4])"
    by (rule run_Cons_Some [OF s1])
  have d: "deref ?p4 ?n = settle (Fulfilled res) t3 (deref p3 ?n)"
    using cur(1) by (simp add: deref_def)
  have "id' (deref p3 ?n) = map id' (objects p3) ! ?n" using cur(1) by (simp add: deref_def)
  then have a1: "id' (deref ?p4 ?n) = s" unfolding d by (simp add: i3 i2 nth_append)
  have "params (deref p3 ?n) = map params (objects p3) ! ?n" using cur(1) by (simp add: deref_def)
  then have a2: "params (deref ?p4 ?n) = ps" unfolding d by (simp add: ps3 ps2 nth_append)
  have a3: "status (deref ?p4 ?n) = COMPLETED" "result (deref ?p4 ?n) = Some res"
    "error (deref ?p4 ?n) = None"
    unfolding d using cur(3) by (simp_all add: settle_Fulfilled)
  have a4: "\<not> isProcessing ?p4" by simp
  show ?thesis
    by (intro exI [of _ ?p4] exI [of _ "rs3 @ [?r4]"] exI [of _ s] conjI)
       (rule r a1 a2 a3 a4)+
qed

text \<open>
  Let a run be executing in a state that a new pool has reached, with a bound on the
  history that is not negative. When the work function throws or rejects with a value \<open>v\<close>
  that the \<^verbatim>\<open>catch\<close> block normalises, and the callback returns, the completion step
  returns; the run is failed, without a result, and its error is \<open>v\<close> itself if \<open>v\<close> is an
  error object and otherwise an error whose message is \<^verbatim>\<open>String(v)\<close>. The pool is idle
  afterwards and, if runs are queued and it is not shutting down, the next dispatch is
  scheduled. A run enqueued afterwards is accepted, and once the runs ahead of it have
  been served and its own work function fulfils, it is completed with that result.
\<close>

lemma normalised_rejection_is_contained:
  fixes p :: "('p, 'r) TaskPool"
  assumes "run evs0 (new_TaskPool opts) = Some (p, rs0)" and "list_all pool_event evs0"
    and "currentRun p = Some a" and "0 \<le> maxHistorySize p"
  shows "\<exists>p1 r1. step (TaskSettles (Rejected v) now) p = Some (p1, r1)
     \<and> status (deref p1 a) = FAILED
     \<and> error (deref p1 a) = Some (normalize_error v)
     \<and> result (deref p1 a) = None
     \<and> r1 = (case onProcessed p of None \<Rightarrow> Done | Some cb \<Rightarrow> Called cb a)
     \<and> \<not> isProcessing p1 \<and> currentRun p1 = None
     \<and> (queue p1 \<noteq> [] \<and> \<not> isShuttingDown p1 \<longrightarrow> 0 < immediates p1)
     \<and> (\<not> isShuttingDown p \<longrightarrow>
          (\<forall>ps ts tq t2 os res t3. length os = length (queue p) \<longrightarrow>
             (\<exists>p' rs s.
                 run (Enqueue ps ts tq t2 # serve os @ [TaskSettles (Fulfilled res) t3]) p1
                   = Some (p', RunId s # rs)
               \<and> id' (deref p' (length (objects p))) = s
               \<and> params (deref p' (length (objects p))) = ps
               \<and> status (deref p' (length (objects p))) = COMPLETED
               \<and> result (deref p' (length (objects p))) = Some res
               \<and> error (deref p' (length (objects p))) = None
               \<and> \<not> isProcessing p')))"
proof -
  have wf: "wf_core p" using wf_reachable [OF assms(2) assms(1)] .
  note cur = wf_current [OF wf assms(3)]
  let ?p1 = "p\<lparr> objects := (objects p)[a := settle (Rejected v) now (deref p a)],
               history := drop (Suc (length (history p)) - nat (maxHistorySize p)) (history p @ [a]),
               currentRun := None, isProcessing := False,
               immediates := (if queue p \<noteq> [] \<and> \<not> isShuttingDown p
                              then immediates p + 1 else immediates p) \<rparr>"
  let ?r1 = "case onProcessed p of None \<Rightarrow> Done | Some cb \<Rightarrow> Called cb a"
  have s1: "step (TaskSettles (Rejected v) now) p = Some (?p1, ?r1)"
    using processNextTask_resume_nonneg [OF assms(4) assms(3), of "Rejected v" now] by simp
  have wf1: "wf_core ?p1" using wf_step [OF wf _ s1] by simp
  have d: "deref ?p1 a = settle (Rejected v) now (deref p a)"
    using cur(1) by (simp add: deref_def)
  have b1: "status (deref ?p1 a) = FAILED"
    and b2: "error (deref ?p1 a) = Some (normalize_error v)"
    and b3: "result (deref ?p1 a) = None"
    unfolding d using cur(2) by (simp_all add: settle_Rejected)
  have b4: "?r1 = (case onProcessed p of None \<Rightarrow> Done | Some cb \<Rightarrow> Called cb a)" by simp
  have b5: "\<not> isProcessing ?p1" "currentRun ?p1 = None" by simp_all
  have b6: "queue ?p1 \<noteq> [] \<and> \<not> isShuttingDown ?p1 \<longrightarrow> 0 < immediates ?p1" by simp
  have b7: "\<not> isShuttingDown p \<longrightarrow>
          (\<forall>ps ts tq t2 os res t3. length os = length (queue p) \<longrightarrow>
             (\<exists>p' rs s.
                 run (Enqueue ps ts tq t2 # serve os @ [TaskSettles (Fulfilled res) t3]) ?p1
                   = Some (p', RunId s # rs)
               \<and> id' (deref p' (length (objects p))) = s
               \<and> params (deref p' (length (objects p))) = ps
               \<and> status (deref p' (length (objects p))) = COMPLETED
               \<and> result (deref p' (length (objects p))) = Some res
               \<and> error (deref p' (length (objects p))) = None
               \<and> \<not> isProcessing p'))"
  proof (intro impI allI)
    fix ps ts tq t2 res t3 and os :: "('r outcome \<times> int \<times> int) list"
    assume ns: "\<not> isShuttingDown p" and len: "length os = length (queue p)"
    have "\<exists>p' rs s.
           run (Enqueue ps ts tq t2 # serve os @ [TaskSettles (Fulfilled res) t3]) ?p1
             = Some (p', RunId s # rs)
         \<and> id' (deref p' (length (objects ?p1))) = s
         \<and> params (deref p' (length (objects ?p1))) = ps
         \<and> status (deref p' (length (objects ?p1))) = COMPLETED
         \<and> result (deref p' (length (objects ?p1))) = Some res
         \<and> error (deref p' (length (objects ?p1))) = None
         \<and> \<not> isProcessing p'"
      by (rule enqueue_then_drain [OF wf1]) (use ns len assms(4) in simp_all)
    then show "\<exists>p' rs s.
                 run (Enqueue ps ts tq t2 # serve os @ [TaskSettles (Fulfilled res) t3]) ?p1
                   = Some (p', RunId s # rs)
               \<and> id' (deref p' (length (objects p))) = s
               \<and> params (deref p' (length (objects p))) = ps
               \<and> status (deref p' (length (objects p))) = COMPLETED
               \<and> result (deref p' (length (objects p))) = Some res
               \<and> error (deref p' (length (objects p))) = None
               \<and> \<not> isProcessing p'"
      by simp
  qed
  show ?thesis
    by (intro exI [of _ ?p1] exI [of _ ?r1] conjI) (rule s1 b1 b2 b3 b4 b5 b6 b7)+
qed

text \<open>
  The scenario of the specification: the work function of the first run throws
  \<^verbatim>\<open>Error("boom")\<close>; the run is failed with that error, and the second run completes.
\<close>

lemma error_boom_is_contained:
  "\<exists>p rs. run [Enqueue (1::nat) 1000 1000 1000, TaskSettles (Rejected (JSErrorObject (Error ''boom''))) 1005,
               Enqueue 2 1006 1006 1006, TaskSettles (Fulfilled (4::nat)) 1010]
              (new_TaskPool None) = Some (p, rs)
     \<and> map status (objects p) = [FAILED, COMPLETED]
     \<and> map error (objects p) = [Some (Error ''boom''), None]
     \<and> map result (objects p) = [None, Some 4]
     \<and> history p = [0, 1] \<and> \<not> isProcessing p"
  by (simp add: eval_defs)

text \<open>
  While a run occupies the slot and the work function's promise does not settle, the pool
  starts nothing: whatever else happens, the slot stays occupied, the queued runs stay
  queued, nothing enters the history and no \<^verbatim>\<open>cleanup\<close> call resolves.
\<close>

lemma halted_step:
  assumes "halted_at a q p" "\<not> settlement e" "step e p = Some (p', r)"
  shows "halted_at a q p' \<and> r \<noteq> Resolved \<and> set (history p') \<subseteq> set (history p)"
proof -
  have le: "length q \<le> length (queue p)"
  proof -
    from assms(1) have "length (take (length q) (queue p)) = length q"
      by (simp add: halted_at_def)
    then show ?thesis by simp
  qed
  show ?thesis
  proof (cases e)
    case (Enqueue ps ts tq now)
    then show ?thesis using assms le
      by (auto simp: halted_at_def enqueue_def generateRunId_def processNextTask_def Let_def
            split: if_splits)
  next
    case (Immediate now)
    then show ?thesis using assms
      by (auto simp: halted_at_def processNextTask_def split: if_splits)
  next
    case Cleanup
    then show ?thesis using assms by (auto simp: halted_at_def cleanup_def Let_def)
  next
    case CleanupPoll
    then show ?thesis using assms by (auto simp: halted_at_def cleanup_poll_def split: if_splits)
  next
    case ClearHistory
    then show ?thesis using assms by (auto simp: halted_at_def clearHistory_def)
  next
    case (SetOnProcessed cb)
    then show ?thesis using assms by (auto simp: halted_at_def setOnProcessed_def)
  next
    case (ExternalWrite b f)
    then show ?thesis using assms
      by (auto simp: halted_at_def external_write_def split: if_splits)
  qed (use assms in simp_all)
qed

lemma halted_run:
  "halted_at a q p \<Longrightarrow> list_all (\<lambda>e. \<not> settlement e) evs \<Longrightarrow> run evs p = Some (p', rs) \<Longrightarrow>
   halted_at a q p' \<and> Resolved \<notin> set rs \<and> set (history p') \<subseteq> set (history p)"
proof (induction evs arbitrary: p rs)
  case Nil
  then show ?case by simp
next
  case (Cons e evs)
  from Cons.prems(3) obtain p1 r rs1 where s: "step e p = Some (p1, r)"
    and r: "run evs p1 = Some (p', rs1)" and rs: "rs = r # rs1"
    by (auto split: option.splits)
  from Cons.prems(2) have ne: "\<not> settlement e" and rest: "list_all (\<lambda>e. \<not> settlement e) evs"
    by simp_all
  note h = halted_step [OF Cons.prems(1) ne s]
  from Cons.IH [OF h [THEN conjunct1] rest r] h rs show ?case by auto
qed

lemma catch_throws_halts:
  assumes "currentRun p = Some a" "isProcessing p"
  shows "halted_at a (queue p) (fst (processNextTask_catch_throws p))"
    and "snd (processNextTask_catch_throws p) = Unhandled"
    and "history (fst (processNextTask_catch_throws p)) = history p"
    and "immediates (fst (processNextTask_catch_throws p)) = immediates p"
  using assms by (simp_all add: processNextTask_catch_throws_def halted_at_def)

lemma unconvertible_rejection_halts_for_good:
  assumes "currentRun p = Some a" "isProcessing p"
    and "list_all (\<lambda>e. \<not> settlement e) evs"
    and "run (TaskRejectsUnconvertible # evs) p = Some (p', rs)"
  shows "isProcessing p' \<and> currentRun p' = Some a
       \<and> take (length (queue p)) (queue p') = queue p
       \<and> Resolved \<notin> set rs \<and> set (history p') \<subseteq> set (history p)"
proof -
  from assms(4) obtain rs1 where r: "run evs (fst (processNextTask_catch_throws p)) = Some (p', rs1)"
    and rs: "rs = snd (processNextTask_catch_throws p) # rs1"
    by (auto split: option.splits prod.splits)
  note c = catch_throws_halts [OF assms(1,2)]
  from halted_run [OF c(1) assms(3) r] c(2,3) rs show ?thesis
    by (simp add: halted_at_def)
qed

text \<open>
  Claim C6 does not hold of the code for every thrown value. When the work function
  rejects with a value on which the normalisation throws (\<^verbatim>\<open>Object.create(null)\<close>, for
  instance), the \<^verbatim>\<open>catch\<close> block is left with an exception after it has set the status:
  the run is failed but has no error, it stays in the current-run slot and the processing
  flag stays set. The pool has halted. A second run enqueued afterwards is accepted and
  queued, but no dispatch is scheduled and the run is never started; the failed run never
  enters the history; and a \<^verbatim>\<open>cleanup\<close> call finds the flag set at every wake-up and
  never resolves.
\<close>

theorem unconvertible_rejection_halts_pool:
  "(\<exists>p rs. run second_run_after_rejection (new_TaskPool None) = Some (p, rs)
      \<and> rs = [RunId ''run-1000-1'', Unhandled, RunId ''run-1001-2'', NotEnabled]
      \<and> status (deref p 0) = FAILED \<and> error (deref p 0) = None \<and> completedAt (deref p 0) = None
      \<and> isProcessing p \<and> currentRun p = Some 0 \<and> history p = [] \<and> immediates p = 0
      \<and> queue p = [1] \<and> status (deref p 1) = PENDING \<and> startedAt (deref p 1) = None
      \<and> totalRuns (getStats p) = 0 \<and> failedRuns (getStats p) = 0 \<and> isRunning (getStats p))
   \<and> (\<exists>p rs. run cleanup_after_rejection (new_TaskPool None) = Some (p, rs)
      \<and> drop 4 rs = [Waiting, Waiting]
      \<and> isProcessing p \<and> currentRun p = Some 0 \<and> sleepers p = 1
      \<and> queue p = [1] \<and> status (deref p 1) = PENDING \<and> history p = [])"
  by (simp add: cleanup_after_rejection_def second_run_after_rejection_def eval_defs getStats_def
        show_int_def show_nat.simps digit_char_numerals)

section \<open>What the accessors hand out\<close>

lemma getHistory_positive_limit:
  "0 < l \<Longrightarrow> getHistory p (Some l) = take (nat l) (rev (history p))"
  by (simp add: getHistory_def slice0_def)

lemma getHistory_limit_zero: "getHistory p (Some 0) = rev (history p)"
  by (simp add: getHistory_def)

lemma getHistory_subset: "set (getHistory p limit) \<subseteq> set (history p)"
  by (auto simp: getHistory_def slice0_def Let_def split: option.splits if_splits dest: in_set_takeD)

text \<open>
  Claim C8 does not hold of the code for the limit \<open>0\<close>: the limit is tested for
  truthiness, so \<^verbatim>\<open>getHistory(0)\<close> returns the whole history, as \<open>getHistory_limit_zero\<close>
  says in general. Here the history holds three runs; a limit of \<open>2\<close> gives the two most
  recent ones, a limit of \<open>0\<close> gives all three.
\<close>

theorem getHistory_limit_zero_returns_everything:
  "\<exists>p rs. run three_tasks (new_TaskPool None) = Some (p, rs)
     \<and> history p = [0, 1, 2]
     \<and> getHistory p None = [2, 1, 0]
     \<and> getHistory p (Some 2) = [2, 1]
     \<and> getHistory p (Some 0) = [2, 1, 0]"
  by (simp add: three_tasks_def eval_defs getHistory_def slice0_def)

text \<open>
  Claim C5 does not hold of the code: \<^verbatim>\<open>getHistory\<close> copies the array, not its elements,
  and the callback receives the stored object itself. One run is enqueued and completes
  after 4 ms. The callback is called with address \<open>0\<close>, and \<^verbatim>\<open>getHistory\<close> returns the
  same address, which is the one the history holds. After outside code has assigned to
  the status and the duration of that object, \<^verbatim>\<open>getRunById\<close>, \<^verbatim>\<open>getHistory\<close> and
  \<^verbatim>\<open>getStats\<close> report the assigned values.
\<close>

theorem getHistory_and_callback_hand_out_stored_runs:
  "\<exists>p rs. run [SetOnProcessed 7, Enqueue (1::nat) 1000 1000 1000, TaskSettles (Fulfilled (2::nat)) 1004]
              (new_TaskPool None) = Some (p, rs)
     \<and> rs = [Done, RunId ''run-1000-1'', Called 7 0]
     \<and> history p = [0] \<and> getHistory p None = [0]
     \<and> map_option status (getRunById p ''run-1000-1'') = Some COMPLETED
     \<and> completedRuns (getStats p) = 1 \<and> averageDurationMs (getStats p) = 4
     \<and> (let p' = external_write 0 (\<lambda>r. r\<lparr>status := PENDING, duration := Some 1000\<rparr>) p
        in map_option status (getRunById p' ''run-1000-1'') = Some PENDING
         \<and> map (\<lambda>a. status (deref p' a)) (getHistory p' None) = [PENDING]
         \<and> completedRuns (getStats p') = 0 \<and> averageDurationMs (getStats p') = 1000)"
  by (simp add: eval_defs getHistory_def getRunById_def getStats_def Math_round_def
      show_int_def show_nat.simps digit_char_numerals floor_eq_iff)

end
